theory Spec2Isabelle
  imports Main
begin

section \<open>Values of the host language\<close>

text \<open>
  Text is modelled as \<^typ>\<open>string\<close>; one \<^typ>\<open>char\<close> stands for one code unit of a
  JavaScript string in the range 0..255. A parsed JSON request body is a \<open>jsval\<close>;
  \<open>JUndefined\<close> is the value of a missing body or a missing property. The numeric value
  of a number is never inspected beyond being zero or not.
\<close>

datatype jsval =
    JUndefined
  | JNull
  | JBool bool
  | JNumber int
  | JString string
  | JArray "jsval list"
  | JObject "(string \<times> jsval) list"

text \<open>
  \<open>property v k\<close> is \<^verbatim>\<open>v?.k\<close> (equally \<^verbatim>\<open>(v ?? {}).k\<close>) for the property names the
  handlers read (\<^verbatim>\<open>prompt\<close>, \<^verbatim>\<open>images\<close>, \<^verbatim>\<open>fullStdout\<close>): only an object can carry them.
  The list of a \<open>JObject\<close> holds the object's properties.
\<close>

fun property :: "jsval \<Rightarrow> string \<Rightarrow> jsval" where
  "property (JObject kvs) k = (case map_of kvs k of Some v \<Rightarrow> v | None \<Rightarrow> JUndefined)"
| "property _ k = JUndefined"

text \<open>
  \<^verbatim>\<open>String.prototype.trim\<close>: the white space and line terminator code units below 256 are
  TAB, LF, VT, FF, CR, SP and NBSP.
\<close>

definition is_ws :: "char \<Rightarrow> bool" where
  "is_ws c = (of_char c \<in> {9, 10, 11, 12, 13, 32, 160 :: nat})"

definition trim :: "string \<Rightarrow> string" where
  "trim s = rev (dropWhile is_ws (rev (dropWhile is_ws s)))"

text \<open>
  \<^verbatim>\<open>typeof p === "string" ? p.trim() : ""\<close>, the expression both servers apply to the
  \<^verbatim>\<open>prompt\<close> property.
\<close>

definition prompt_text :: "jsval \<Rightarrow> string" where
  "prompt_text p = (case p of JString s \<Rightarrow> trim s | _ \<Rightarrow> [])"

text \<open>A value caught by \<^verbatim>\<open>catch (error)\<close>: an \<^verbatim>\<open>Error\<close> with its message, or any other
  value, given by what \<^verbatim>\<open>String(error)\<close> renders.\<close>

datatype thrown = ErrorObj string | NonError string

datatype outcome = Resolved | Rejected thrown


section \<open>The multi-session server\<close>

subsection \<open>Data\<close>

text \<open>The three payload shapes the orchestrator builds: \<^verbatim>\<open>{ text }\<close>, \<^verbatim>\<open>{ loading }\<close>
  and \<^verbatim>\<open>{ message }\<close>.\<close>

datatype payload = Text string | Loading bool | Message string

record session_event =
  type :: string
  data :: "payload option"

text \<open>
  A \<^verbatim>\<open>Session\<close> object. \<open>listeners\<close> is the \<^verbatim>\<open>Set<Response>\<close> in insertion order,
  holding response handles.
\<close>

record session =
  id' :: string
  events :: "session_event list"
  listeners :: "nat list"
  completed :: bool

datatype body = ErrorBody string | SessionIdBody string | StatusText

text \<open>
  What the server has done to one \<^verbatim>\<open>Response\<close> object: the status code, the headers set,
  whether the headers were flushed (the stream is open), every chunk given to
  \<^verbatim>\<open>res.write\<close> in order, and the body sent by \<^verbatim>\<open>res.json\<close> or \<^verbatim>\<open>res.sendStatus\<close>.
\<close>

record response =
  statusCode :: nat
  headers :: "(string \<times> string) list"
  flushed :: bool
  written :: "string list"
  sent :: "body option"

definition new_response :: response where
  "new_response = \<lparr>statusCode = 200, headers = [], flushed = False, written = [], sent = None\<rparr>"

text \<open>
  The state of the process between two turns of the event loop.
  \<^item> \<open>heap\<close>: the session objects ever allocated; a session reference is its index.
    Closures keep a reference after the registry has dropped the session.
  \<^item> \<open>sessions\<close>: the registry \<^verbatim>\<open>Map<string, Session>\<close>.
  \<^item> \<open>responses\<close>: the response objects, one per request received; a handle is an index.
  \<^item> \<open>timers\<close>: the responses whose keep-alive interval is running.
  \<^item> \<open>closing\<close>: the registered \<^verbatim>\<open>close\<close> handlers, as (response, session) pairs.
  \<^item> \<open>agents\<close>: every executor started, as (session, prompt).
  \<^item> \<open>pending\<close>: the sessions whose \<^verbatim>\<open>runAgentForSession\<close> is suspended at an await.
  \<^item> \<open>terminated\<close>: the sessions whose agent has been terminated.
\<close>

record world =
  heap :: "session list"
  sessions :: "string \<rightharpoonup> nat"
  responses :: "response list"
  timers :: "nat list"
  closing :: "(nat \<times> nat) list"
  agents :: "(nat \<times> string) list"
  pending :: "nat list"
  terminated :: "nat list"

definition init :: world where
  "init = \<lparr>heap = [], sessions = Map.empty, responses = [], timers = [], closing = [],
            agents = [], pending = [], terminated = []\<rparr>"

subsection \<open>Operations on a response\<close>

definition upd_res :: "nat \<Rightarrow> (response \<Rightarrow> response) \<Rightarrow> world \<Rightarrow> world" where
  "upd_res r f w = w\<lparr>responses := (responses w)[r := f (responses w ! r)]\<rparr>"

definition res_write :: "nat \<Rightarrow> string \<Rightarrow> world \<Rightarrow> world" where
  "res_write r c = upd_res r (\<lambda>x. x\<lparr>written := written x @ [c]\<rparr>)"

definition json :: "nat \<Rightarrow> nat \<Rightarrow> body \<Rightarrow> world \<Rightarrow> world" where
  "json r code b = upd_res r (\<lambda>x. x\<lparr>statusCode := code, sent := Some b\<rparr>)"

definition sendStatus :: "nat \<Rightarrow> nat \<Rightarrow> world \<Rightarrow> world" where
  "sendStatus r code = upd_res r (\<lambda>x. x\<lparr>statusCode := code, sent := Some StatusText\<rparr>)"

definition open_stream :: "nat \<Rightarrow> world \<Rightarrow> world" where
  "open_stream r = upd_res r (\<lambda>x. x\<lparr>statusCode := 200,
     headers := headers x @ [(''Content-Type'', ''text/event-stream''),
                             (''Cache-Control'', ''no-cache, no-transform''),
                             (''Connection'', ''keep-alive'')],
     flushed := True\<rparr>)"

subsection \<open>The relay and the registry\<close>

text \<open>\<^verbatim>\<open>JSON.stringify\<close> is a parameter \<open>js\<close> of everything that frames an event.\<close>

definition writeEvent :: "(payload \<Rightarrow> string) \<Rightarrow> world \<Rightarrow> nat \<Rightarrow> session_event \<Rightarrow> world" where
  "writeEvent js w r e =
     (let w1 = res_write r (''event: '' @ type e @ ''\<newline>'') w;
          w2 = (case data e of
                  None \<Rightarrow> w1
                | Some d \<Rightarrow> res_write r (''data: '' @ js d @ ''\<newline>'') w1)
      in res_write r ''\<newline>'' w2)"

definition emit :: "(payload \<Rightarrow> string) \<Rightarrow> world \<Rightarrow> nat \<Rightarrow> session_event \<Rightarrow> world" where
  "emit js w a e =
     (let s = heap w ! a;
          w1 = w\<lparr>heap := (heap w)[a := s\<lparr>events := events s @ [e]\<rparr>]\<rparr>
      in fold (\<lambda>l w'. writeEvent js w' l e) (listeners s) w1)"

definition createSession :: "world \<Rightarrow> string \<Rightarrow> nat \<times> world" where
  "createSession w uuid =
     (let s = \<lparr>id' = uuid, events = [], listeners = [], completed = False\<rparr>
      in (length (heap w), w\<lparr>heap := heap w @ [s], sessions := (sessions w)(uuid \<mapsto> length (heap w))\<rparr>))"

definition cleanupSessionIfIdle :: "world \<Rightarrow> nat \<Rightarrow> world" where
  "cleanupSessionIfIdle w a =
     (let s = heap w ! a
      in if completed s \<and> length (listeners s) = 0
         then w\<lparr>sessions := (sessions w)(id' s := None)\<rparr>
         else w)"

subsection \<open>The orchestrator\<close>

text \<open>
  \<open>runAgentForSession\<close> is the part of the function that runs at once: it builds the
  agent and suspends at the first await. \<open>run_settled\<close> is the rest: the
  \<^verbatim>\<open>try\<close>/\<^verbatim>\<open>catch\<close>/\<^verbatim>\<open>finally\<close> once the awaited executor has resolved or rejected.
  \<open>onItem\<close> and \<open>onLoading\<close> are the two callbacks; \<open>fmt\<close> is
  \<^verbatim>\<open>formatResponseItemForDisplay\<close>.
\<close>

definition runAgentForSession :: "world \<Rightarrow> nat \<Rightarrow> string \<Rightarrow> world" where
  "runAgentForSession w a prompt = w\<lparr>agents := agents w @ [(a, prompt)], pending := pending w @ [a]\<rparr>"

definition onItem :: "(payload \<Rightarrow> string) \<Rightarrow> ('i \<Rightarrow> string) \<Rightarrow> world \<Rightarrow> nat \<Rightarrow> 'i \<Rightarrow> world" where
  "onItem js fmt w a item = emit js w a \<lparr>type = ''item'', data = Some (Text (fmt item))\<rparr>"

definition onLoading :: "(payload \<Rightarrow> string) \<Rightarrow> world \<Rightarrow> nat \<Rightarrow> bool \<Rightarrow> world" where
  "onLoading js w a loading = emit js w a \<lparr>type = ''status'', data = Some (Loading loading)\<rparr>"

definition run_settled :: "(payload \<Rightarrow> string) \<Rightarrow> world \<Rightarrow> nat \<Rightarrow> outcome \<Rightarrow> world" where
  "run_settled js w a out =
     (let w1 = (case out of
                  Resolved \<Rightarrow> emit js w a \<lparr>type = ''complete'', data = None\<rparr>
                | Rejected error \<Rightarrow>
                    (let message = (case error of ErrorObj m \<Rightarrow> m | NonError _ \<Rightarrow> ''Unexpected error'')
                     in emit js w a \<lparr>type = ''error'', data = Some (Message message)\<rparr>));
          w2 = w1\<lparr>pending := removeAll a (pending w1), terminated := terminated w1 @ [a]\<rparr>;
          w3 = w2\<lparr>heap := (heap w2)[a := (heap w2 ! a)\<lparr>completed := True\<rparr>]\<rparr>
      in cleanupSessionIfIdle w3 a)"

subsection \<open>The request handlers\<close>

text \<open>\<open>r\<close> is the handle of the request's response object; \<open>uuid\<close> is what
  \<^verbatim>\<open>randomUUID()\<close> returns if it is called.\<close>

definition post_run :: "world \<Rightarrow> nat \<Rightarrow> jsval \<Rightarrow> string \<Rightarrow> world" where
  "post_run w r reqbody uuid =
     (let prompt = prompt_text (property reqbody ''prompt'')
      in if prompt = [] then json r 400 (ErrorBody ''Prompt is required'') w
         else (let (a, w1) = createSession w uuid;
                   w2 = json r 200 (SessionIdBody (id' (heap w1 ! a))) w1
               in runAgentForSession w2 a prompt))"

definition set_add :: "'a list \<Rightarrow> 'a \<Rightarrow> 'a list" where
  "set_add xs x = (if x \<in> set xs then xs else xs @ [x])"

definition get_stream :: "(payload \<Rightarrow> string) \<Rightarrow> world \<Rightarrow> nat \<Rightarrow> string \<Rightarrow> world" where
  "get_stream js w r k =
     (case sessions w k of
        None \<Rightarrow> sendStatus r 404 w
      | Some a \<Rightarrow>
          (let w1 = open_stream r w;
               s = heap w1 ! a;
               w2 = w1\<lparr>heap := (heap w1)[a := s\<lparr>listeners := set_add (listeners s) r\<rparr>]\<rparr>;
               w3 = fold (\<lambda>e w'. writeEvent js w' r e) (events (heap w2 ! a)) w2
           in w3\<lparr>timers := timers w3 @ [r], closing := closing w3 @ [(r, a)]\<rparr>))"

definition keep_alive :: "world \<Rightarrow> nat \<Rightarrow> world" where
  "keep_alive w r = res_write r '': keep-alive\<newline>\<newline>'' w"

definition on_close :: "world \<Rightarrow> nat \<Rightarrow> nat \<Rightarrow> world" where
  "on_close w r a =
     (let w1 = w\<lparr>timers := removeAll r (timers w)\<rparr>;
          s = heap w1 ! a;
          w2 = w1\<lparr>heap := (heap w1)[a := s\<lparr>listeners := removeAll r (listeners s)\<rparr>]\<rparr>
      in cleanupSessionIfIdle w2 a)"

subsection \<open>The event loop\<close>

text \<open>
  One turn of the event loop runs one of these to completion. A request allocates a
  fresh response object. A \<^verbatim>\<open>close\<close> event fires at most once per request and only
  where a handler was registered; a keep-alive tick fires only while its interval is set;
  the executor calls back only for a session whose agent was built, and an awaited run
  settles only once.
\<close>

datatype 'i action =
    PostRun jsval string
  | GetStream string
  | Close nat
  | KeepAlive nat
  | OnItem nat 'i
  | OnLoading nat bool
  | Settle nat outcome

definition accept :: "world \<Rightarrow> world" where
  "accept w = w\<lparr>responses := responses w @ [new_response]\<rparr>"

fun step :: "(payload \<Rightarrow> string) \<Rightarrow> ('i \<Rightarrow> string) \<Rightarrow> world \<Rightarrow> 'i action \<Rightarrow> world" where
  "step js fmt w (PostRun reqbody uuid) = post_run (accept w) (length (responses w)) reqbody uuid"
| "step js fmt w (GetStream k) = get_stream js (accept w) (length (responses w)) k"
| "step js fmt w (Close r) =
     (case map_of (closing w) r of
        None \<Rightarrow> w
      | Some a \<Rightarrow> on_close (w\<lparr>closing := filter (\<lambda>p. fst p \<noteq> r) (closing w)\<rparr>) r a)"
| "step js fmt w (KeepAlive r) = (if r \<in> set (timers w) then keep_alive w r else w)"
| "step js fmt w (OnItem a item) =
     (if a \<in> fst ` set (agents w) then onItem js fmt w a item else w)"
| "step js fmt w (OnLoading a loading) =
     (if a \<in> fst ` set (agents w) then onLoading js w a loading else w)"
| "step js fmt w (Settle a out) =
     (if a \<in> set (pending w) then run_settled js w a out else w)"

definition run :: "(payload \<Rightarrow> string) \<Rightarrow> ('i \<Rightarrow> string) \<Rightarrow> 'i action list \<Rightarrow> world" where
  "run js fmt acts = foldl (step js fmt) init acts"

text \<open>
  The frame of one event as the specification words it, chunk by chunk: an event line, a
  data line only when the event carries data, then a blank line. The lemmas below show
  that it is what \<open>writeEvent\<close> hands to \<^verbatim>\<open>res.write\<close>.
\<close>

definition frame :: "(payload \<Rightarrow> string) \<Rightarrow> session_event \<Rightarrow> string list" where
  "frame js e =
     [''event: '' @ type e @ ''\<newline>''] @
     (case data e of None \<Rightarrow> [] | Some d \<Rightarrow> [''data: '' @ js d @ ''\<newline>'']) @
     [''\<newline>'']"

text \<open>What an observer has received of the event stream: the chunks written to its
  connection, keep-alive comments left out.\<close>

definition received :: "world \<Rightarrow> nat \<Rightarrow> string list" where
  "received w r = filter (\<lambda>c. c \<noteq> '': keep-alive\<newline>\<newline>'') (written (responses w ! r))"


section \<open>The single-flight server\<close>

subsection \<open>Data\<close>

text \<open>The result of \<^verbatim>\<open>determineSandboxStatus()\<close>, computed once at start-up.\<close>

datatype sandbox_status = Available | NotApplicable | Unavailable string

text \<open>
  An object literal handed to \<^verbatim>\<open>res.json\<close> is the list of its properties, in the order
  written. \<open>'i\<close> is the type of a \<^verbatim>\<open>ResponseItem\<close>, \<open>'l\<close> the type of the payload of
  \<^verbatim>\<open>onLoading\<close>. \<open>VOptStr None\<close> is \<^verbatim>\<open>undefined\<close>.
\<close>

datatype ('i, 'l) jv =
    VStr string
  | VOptStr "string option"
  | VInt int
  | VBool bool
  | VItems "'i list"
  | VLoading "(string \<times> 'l) list"
  | VSandbox sandbox_status

record ('i, 'l) sf_response =
  sf_status :: nat
  sf_sent :: "(string \<times> ('i, 'l) jv) list option"

text \<open>
  The variables one admitted request closes over: its response, the two buffers, the
  last response id, the clock reading taken after the run was started, the raw
  \<^verbatim>\<open>fullStdout\<close> property, and whether its \<^verbatim>\<open>runPromise\<close> has settled.
\<close>

record ('i, 'l) sf_request =
  res :: nat
  results :: "'i list"
  loadingStates :: "(string \<times> 'l) list"
  lastResponseId :: "string option"
  startedAt :: int
  fullStdout :: jsval
  settled :: bool

text \<open>
  \<^item> \<open>activeRun\<close>: the outstanding promise, named by the request it belongs to; \<open>None\<close>
    is \<^verbatim>\<open>null\<close>.
  \<^item> \<open>requests\<close>: the closures of the admitted requests, in order of admission.
  \<^item> \<open>sf_responses\<close>: the response objects, one per request received.
  \<^item> \<open>invocations\<close>: every executor run started, as (prompt text, image paths).
  \<^item> \<open>exited\<close>: the process has ended on an uncaught exception.
\<close>

record ('i, 'l) sf_world =
  activeRun :: "nat option"
  requests :: "('i, 'l) sf_request list"
  sf_responses :: "('i, 'l) sf_response list"
  invocations :: "(string \<times> string list) list"
  sandboxStatus :: sandbox_status
  exited :: bool

definition sf_init :: "sandbox_status \<Rightarrow> ('i, 'l) sf_world" where
  "sf_init sb = \<lparr>activeRun = None, requests = [], sf_responses = [], invocations = [],
                  sandboxStatus = sb, exited = False\<rparr>"

subsection \<open>The request handler and the callbacks\<close>

text \<open>\<^verbatim>\<open>Array.isArray(images) ? images.filter(v => typeof v === "string") : []\<close>\<close>

definition image_paths :: "jsval \<Rightarrow> string list" where
  "image_paths images =
     (case images of
        JArray vs \<Rightarrow> concat (map (\<lambda>v. case v of JString s \<Rightarrow> [s] | _ \<Rightarrow> []) vs)
      | _ \<Rightarrow> [])"

text \<open>\<^verbatim>\<open>Boolean(v)\<close>\<close>

definition truthy :: "jsval \<Rightarrow> bool" where
  "truthy v =
     (case v of
        JUndefined \<Rightarrow> False
      | JNull \<Rightarrow> False
      | JBool b \<Rightarrow> b
      | JNumber n \<Rightarrow> n \<noteq> 0
      | JString s \<Rightarrow> s \<noteq> []
      | JArray _ \<Rightarrow> True
      | JObject _ \<Rightarrow> True)"

definition sf_json :: "nat \<Rightarrow> nat \<Rightarrow> (string \<times> ('i, 'l) jv) list \<Rightarrow> ('i, 'l) sf_world \<Rightarrow> ('i, 'l) sf_world" where
  "sf_json r code b w =
     w\<lparr>sf_responses := (sf_responses w)[r := (sf_responses w ! r)\<lparr>sf_status := code, sf_sent := Some b\<rparr>]\<rparr>"

text \<open>
  The handler of \<^verbatim>\<open>POST /api/run\<close> up to its \<^verbatim>\<open>await runPromise\<close>. \<open>now\<close> is what
  \<^verbatim>\<open>Date.now()\<close> returns for \<^verbatim>\<open>startedAt\<close>.
\<close>

definition sf_post :: "('i, 'l) sf_world \<Rightarrow> nat \<Rightarrow> jsval \<Rightarrow> int \<Rightarrow> ('i, 'l) sf_world" where
  "sf_post w r reqbody now =
     (if activeRun w \<noteq> None
      then sf_json r 409 [(''error'', VStr ''Another run is already in progress.'')] w
      else (let promptText = prompt_text (property reqbody ''prompt'')
            in if promptText = []
               then sf_json r 400 [(''error'', VStr ''Prompt is required.'')] w
               else (let imagePaths = image_paths (property reqbody ''images'');
                         n = length (requests w)
                     in w\<lparr>requests := requests w @
                            [\<lparr>res = r, results = [], loadingStates = [], lastResponseId = None,
                              startedAt = now, fullStdout = property reqbody ''fullStdout'',
                              settled = False\<rparr>],
                          invocations := invocations w @ [(promptText, imagePaths)],
                          activeRun := Some n\<rparr>)))"

definition sf_onItem :: "('i, 'l) sf_world \<Rightarrow> nat \<Rightarrow> 'i \<Rightarrow> ('i, 'l) sf_world" where
  "sf_onItem w n item =
     w\<lparr>requests := (requests w)[n := (requests w ! n)\<lparr>results := results (requests w ! n) @ [item]\<rparr>]\<rparr>"

definition sf_onLoading :: "('i, 'l) sf_world \<Rightarrow> nat \<Rightarrow> 'l \<Rightarrow> ('i, 'l) sf_world" where
  "sf_onLoading w n p =
     w\<lparr>requests := (requests w)[n := (requests w ! n)
          \<lparr>loadingStates := loadingStates (requests w ! n) @ [(''loading'', p)]\<rparr>]\<rparr>"

definition sf_onLastResponseId :: "('i, 'l) sf_world \<Rightarrow> nat \<Rightarrow> string \<Rightarrow> ('i, 'l) sf_world" where
  "sf_onLastResponseId w n i =
     w\<lparr>requests := (requests w)[n := (requests w ! n)\<lparr>lastResponseId := Some i\<rparr>]\<rparr>"

text \<open>
  What runs when \<^verbatim>\<open>runPromise\<close> settles: the \<^verbatim>\<open>finally\<close> callback, registered first,
  clears \<open>activeRun\<close>; then the handler resumes after its \<^verbatim>\<open>await\<close> and answers.
  \<open>now\<close> is what \<^verbatim>\<open>Date.now()\<close> returns there.

  The handle stored in \<open>activeRun\<close> is not \<^verbatim>\<open>runPromise\<close> but the promise that
  \<^verbatim>\<open>runPromise.finally(...)\<close> returns. When \<^verbatim>\<open>runPromise\<close> rejects, that second promise
  rejects with the same reason, and nothing handles it: the \<^verbatim>\<open>try\<close>/\<^verbatim>\<open>catch\<close> of the
  handler covers \<^verbatim>\<open>runPromise\<close> only, and the source installs no
  \<^verbatim>\<open>unhandledRejection\<close> handler. Once the pending callbacks have run, so after the 500
  reply, the runtime raises the unhandled rejection as an uncaught exception and the
  process ends.
\<close>

definition sf_settled :: "('i, 'l) sf_world \<Rightarrow> nat \<Rightarrow> outcome \<Rightarrow> int \<Rightarrow> ('i, 'l) sf_world" where
  "sf_settled w n out now =
     (let w1 = w\<lparr>activeRun := None,
                 requests := (requests w)[n := (requests w ! n)\<lparr>settled := True\<rparr>]\<rparr>;
          c = requests w ! n
      in case out of
           Resolved \<Rightarrow>
             sf_json (res c) 200
               [(''items'', VItems (results c)),
                (''loading'', VLoading (loadingStates c)),
                (''lastResponseId'', VOptStr (lastResponseId c)),
                (''durationMs'', VInt (now - startedAt c)),
                (''sandbox'', VSandbox (sandboxStatus w)),
                (''fullStdout'', VBool (truthy (fullStdout c)))] w1
         | Rejected error \<Rightarrow>
             sf_json (res c) 500
               [(''error'', VStr (case error of ErrorObj m \<Rightarrow> m | NonError s \<Rightarrow> s)),
                (''items'', VItems (results c)),
                (''durationMs'', VInt (now - startedAt c)),
                (''sandbox'', VSandbox (sandboxStatus w))] (w1\<lparr>exited := True\<rparr>))"

subsection \<open>The event loop\<close>

text \<open>
  A request allocates a fresh response object. The executor calls back only for a
  request that was admitted, and a promise settles only once. \<open>sf_handle\<close> is one turn
  of the event loop of the running process; once the process has ended nothing is
  served and nothing runs.
\<close>

datatype ('i, 'l) sf_action =
    SfPost jsval int
  | SfItem nat 'i
  | SfLoading nat 'l
  | SfLastResponseId nat string
  | SfSettle nat outcome int

fun sf_handle :: "('i, 'l) sf_world \<Rightarrow> ('i, 'l) sf_action \<Rightarrow> ('i, 'l) sf_world" where
  "sf_handle w (SfPost reqbody now) =
     sf_post (w\<lparr>sf_responses := sf_responses w @ [\<lparr>sf_status = 200, sf_sent = None\<rparr>]\<rparr>)
       (length (sf_responses w)) reqbody now"
| "sf_handle w (SfItem n item) = (if n < length (requests w) then sf_onItem w n item else w)"
| "sf_handle w (SfLoading n p) = (if n < length (requests w) then sf_onLoading w n p else w)"
| "sf_handle w (SfLastResponseId n i) =
     (if n < length (requests w) then sf_onLastResponseId w n i else w)"
| "sf_handle w (SfSettle n out now) =
     (if n < length (requests w) \<and> \<not> settled (requests w ! n) then sf_settled w n out now else w)"

definition sf_step :: "('i, 'l) sf_world \<Rightarrow> ('i, 'l) sf_action \<Rightarrow> ('i, 'l) sf_world" where
  "sf_step w act = (if exited w then w else sf_handle w act)"

definition sf_run :: "sandbox_status \<Rightarrow> ('i, 'l) sf_action list \<Rightarrow> ('i, 'l) sf_world" where
  "sf_run sb acts = foldl sf_step (sf_init sb) acts"



text \<open>The instruction of a request body is missing, not a string, or empty after trimming.\<close>

definition no_instruction :: "jsval \<Rightarrow> bool" where
  "no_instruction reqbody =
     (case property reqbody ''prompt'' of
        JUndefined \<Rightarrow> True
      | JString s \<Rightarrow> trim s = []
      | _ \<Rightarrow> True)"

text \<open>In every reachable state the outstanding handle names the one request whose promise
  has not settled, and a process that has ended has no request outstanding.\<close>

definition sf_wf :: "('i, 'l) sf_world \<Rightarrow> bool" where
  "sf_wf w \<longleftrightarrow>
     (\<forall>n < length (requests w). \<not> settled (requests w ! n) \<longleftrightarrow> activeRun w = Some n) \<and>
     (\<forall>n. activeRun w = Some n \<longrightarrow> n < length (requests w)) \<and>
     (\<forall>n < length (requests w). res (requests w ! n) < length (sf_responses w)) \<and>
     length (invocations w) = length (requests w) \<and>
     (exited w \<longrightarrow> activeRun w = None)"

section \<open>Invariants of the multi-session server\<close>

text \<open>The one event that \<open>run_settled\<close> emits, by outcome.\<close>

definition settle_event :: "outcome \<Rightarrow> session_event" where
  "settle_event out = (case out of
       Resolved \<Rightarrow> \<lparr>type = ''complete'', data = None\<rparr>
     | Rejected error \<Rightarrow> \<lparr>type = ''error'',
         data = Some (Message (case error of ErrorObj m \<Rightarrow> m | NonError _ \<Rightarrow> ''Unexpected error''))\<rparr>)"

text \<open>
  The emit calls that one turn of the event loop makes on session \<open>a\<close>, as the list of
  the events passed, in call order. It is read off the call sites (\<^verbatim>\<open>onItem\<close>,
  \<^verbatim>\<open>onLoading\<close>, and the \<^verbatim>\<open>try\<close> and \<^verbatim>\<open>catch\<close> of \<^verbatim>\<open>runAgentForSession\<close>) and
  says nothing of what \<open>emit\<close> then does with them. \<open>emitted\<close> collects them over a
  list of turns.
\<close>

fun emits :: "('i \<Rightarrow> string) \<Rightarrow> world \<Rightarrow> nat \<Rightarrow> 'i action \<Rightarrow> session_event list" where
  "emits fmt w a (OnItem b item) =
     (if b = a \<and> b \<in> fst ` set (agents w)
      then [\<lparr>type = ''item'', data = Some (Text (fmt item))\<rparr>] else [])"
| "emits fmt w a (OnLoading b loading) =
     (if b = a \<and> b \<in> fst ` set (agents w)
      then [\<lparr>type = ''status'', data = Some (Loading loading)\<rparr>] else [])"
| "emits fmt w a (Settle b out) =
     (if b = a \<and> b \<in> set (pending w) then [settle_event out] else [])"
| "emits fmt w a _ = []"

fun emitted :: "(payload \<Rightarrow> string) \<Rightarrow> ('i \<Rightarrow> string) \<Rightarrow> world \<Rightarrow> nat \<Rightarrow> 'i action list \<Rightarrow>
    session_event list" where
  "emitted js fmt w a [] = []"
| "emitted js fmt w a (act # acts) = emits fmt w a act @ emitted js fmt (step js fmt w act) a acts"

text \<open>
  What every reachable state satisfies: the registry holds only allocated sessions, under
  their own identifier, none of them completed and unobserved; the observer set of a
  session has no duplicates and holds exactly the responses with a registered
  \<^verbatim>\<open>close\<close> handler for it; a response has at most one such handler; a suspended run
  belongs to an allocated, uncompleted session; an agent belongs to an allocated session.
\<close>

definition wf :: "world \<Rightarrow> bool" where
  "wf w \<longleftrightarrow>
     (\<forall>k a. sessions w k = Some a \<longrightarrow>
        a < length (heap w) \<and> id' (heap w ! a) = k \<and>
        \<not> (completed (heap w ! a) \<and> listeners (heap w ! a) = [])) \<and>
     (\<forall>a < length (heap w). distinct (listeners (heap w ! a)) \<and>
        (\<forall>r \<in> set (listeners (heap w ! a)). (r, a) \<in> set (closing w))) \<and>
     distinct (map fst (closing w)) \<and>
     (\<forall>(r, a) \<in> set (closing w).
        r < length (responses w) \<and> a < length (heap w) \<and> r \<in> set (listeners (heap w ! a))) \<and>
     (\<forall>a \<in> set (pending w). a < length (heap w) \<and> \<not> completed (heap w ! a)) \<and>
     (\<forall>a \<in> fst ` set (agents w). a < length (heap w))"

text \<open>Every attached observer has received exactly the frames of its session's log.\<close>

definition synced :: "(payload \<Rightarrow> string) \<Rightarrow> world \<Rightarrow> bool" where
  "synced js w \<longleftrightarrow> (\<forall>r a. (r, a) \<in> set (closing w) \<longrightarrow>
      received w r = concat (map (frame js) (events (heap w ! a))))"

text \<open>The session object at address \<open>a\<close> is what the registry holds under its identifier.\<close>

definition in_registry :: "world \<Rightarrow> nat \<Rightarrow> bool" where
  "in_registry w a \<longleftrightarrow> sessions w (id' (heap w ! a)) = Some a"

text \<open>A session is in the registry exactly while it is not both completed and unobserved.\<close>

definition reg_inv :: "world \<Rightarrow> bool" where
  "reg_inv w \<longleftrightarrow> (\<forall>a < length (heap w).
      in_registry w a \<longleftrightarrow> \<not> (completed (heap w ! a) \<and> listeners (heap w ! a) = []))"

text \<open>The two kinds of event that end a run.\<close>

definition terminal :: "session_event \<Rightarrow> bool" where
  "terminal e \<longleftrightarrow> type e = ''error'' \<or> type e = ''complete''"

text \<open>The log of a session whose run is still suspended holds no terminal event.\<close>

definition quiet :: "world \<Rightarrow> bool" where
  "quiet w \<longleftrightarrow> (\<forall>a \<in> set (pending w). filter terminal (events (heap w ! a)) = [])"

text \<open>A session whose run has settled: allocated, not suspended, completed, with \<open>ts\<close> the
  terminal events of its log.\<close>

definition settled_at :: "world \<Rightarrow> nat \<Rightarrow> session_event list \<Rightarrow> bool" where
  "settled_at w a ts \<longleftrightarrow>
     a < length (heap w) \<and> a \<notin> set (pending w) \<and> completed (heap w ! a) \<and>
     filter terminal (events (heap w ! a)) = ts"

section \<open>Example inputs\<close>

text \<open>A request body \<^verbatim>\<open>{ "prompt": p }\<close>, a stand-in for \<^verbatim>\<open>JSON.stringify\<close> on the three
  payload shapes, and a few traces of the event loop.\<close>

definition ex_body :: "string \<Rightarrow> jsval" where
  "ex_body p = JObject [(''prompt'', JString p)]"

definition ex_js :: "payload \<Rightarrow> string" where
  "ex_js p = (case p of
       Text t \<Rightarrow> ''{text:'' @ t @ ''}''
     | Loading b \<Rightarrow> (if b then ''{loading:true}'' else ''{loading:false}'')
     | Message m \<Rightarrow> ''{message:'' @ m @ ''}'')"

definition ex_two_sessions :: "string action list" where
  "ex_two_sessions =
     [PostRun (ex_body ''list files'') ''u1'', PostRun (ex_body ''build project'') ''u2'',
      GetStream ''u1'', OnItem 0 ''a.txt'', Settle 0 Resolved, Settle 1 Resolved]"

definition ex_observed :: "string action list" where
  "ex_observed = [PostRun (ex_body ''list files'') ''u1'', GetStream ''u1'', OnLoading 0 True]"

definition ex_before_attach :: "string action list" where
  "ex_before_attach = [PostRun (ex_body ''list files'') ''u1'', OnItem 0 ''a.txt'']"

definition ex_after_attach :: "string action list" where
  "ex_after_attach = [KeepAlive 1, OnItem 0 ''b.txt'', Settle 0 Resolved]"

definition ex_unobserved :: "string action list" where
  "ex_unobserved = [PostRun (ex_body ''list files'') ''u1'', OnItem 0 ''a.txt'', Settle 0 Resolved]"

definition ex_first_run :: "(nat, bool) sf_action list" where
  "ex_first_run =
     [SfPost (ex_body ''build project'') 10, SfItem 0 1, SfLoading 0 True,
      SfLastResponseId 0 ''resp_1'']"


section \<open>Effects of the operations, field by field\<close>


lemma upd_res_fields [simp]:
  "heap (upd_res r f w) = heap w" "sessions (upd_res r f w) = sessions w"
  "timers (upd_res r f w) = timers w" "closing (upd_res r f w) = closing w"
  "agents (upd_res r f w) = agents w" "pending (upd_res r f w) = pending w"
  "terminated (upd_res r f w) = terminated w"
  "responses (upd_res r f w) = (responses w)[r := f (responses w ! r)]"
  by (simp_all add: upd_res_def)

lemma upd_res_upd_res: "upd_res r g (upd_res r f w) = upd_res r (\<lambda>x. g (f x)) w"
  by (cases "r < length (responses w)") (simp_all add: upd_res_def list_update_beyond)

lemma upd_res_id: "upd_res r (\<lambda>x. x) w = w"
  by (simp add: upd_res_def)

lemma writeEvent_upd: "writeEvent js w r e = upd_res r (\<lambda>x. x\<lparr>written := written x @ frame js e\<rparr>) w"
  by (cases "data e") (simp_all add: writeEvent_def res_write_def frame_def upd_res_upd_res)

lemma replay_upd_aux:
  "fold (\<lambda>e w'. upd_res r (\<lambda>x. x\<lparr>written := written x @ frame js e\<rparr>) w') es w
     = upd_res r (\<lambda>x. x\<lparr>written := written x @ concat (map (frame js) es)\<rparr>) w"
  by (induction es arbitrary: w) (simp_all add: upd_res_id upd_res_upd_res)

lemma replay_upd:
  "fold (\<lambda>e w'. writeEvent js w' r e) es w
     = upd_res r (\<lambda>x. x\<lparr>written := written x @ concat (map (frame js) es)\<rparr>) w"
  by (simp add: writeEvent_upd replay_upd_aux)

text \<open>The fan-out loop of \<open>emit\<close> touches the responses only.\<close>

lemma broadcast_fields [simp]:
  "heap (fold (\<lambda>l w'. writeEvent js w' l e) ls w) = heap w"
  "sessions (fold (\<lambda>l w'. writeEvent js w' l e) ls w) = sessions w"
  "timers (fold (\<lambda>l w'. writeEvent js w' l e) ls w) = timers w"
  "closing (fold (\<lambda>l w'. writeEvent js w' l e) ls w) = closing w"
  "agents (fold (\<lambda>l w'. writeEvent js w' l e) ls w) = agents w"
  "pending (fold (\<lambda>l w'. writeEvent js w' l e) ls w) = pending w"
  "terminated (fold (\<lambda>l w'. writeEvent js w' l e) ls w) = terminated w"
  "length (responses (fold (\<lambda>l w'. writeEvent js w' l e) ls w)) = length (responses w)"
  by (induction ls arbitrary: w; simp add: writeEvent_upd)+

lemma writeEvent_fields [simp]:
  "heap (writeEvent js w l e) = heap w"
  "sessions (writeEvent js w l e) = sessions w"
  "timers (writeEvent js w l e) = timers w"
  "closing (writeEvent js w l e) = closing w"
  "agents (writeEvent js w l e) = agents w"
  "pending (writeEvent js w l e) = pending w"
  "terminated (writeEvent js w l e) = terminated w"
  "length (responses (writeEvent js w l e)) = length (responses w)"
  by (simp_all add: writeEvent_upd)

lemma writeEvent_nth:
  "r < length (responses w) \<Longrightarrow>
   responses (writeEvent js w l e) ! r =
     (if r = l then (responses w ! r)\<lparr>written := written (responses w ! r) @ frame js e\<rparr>
      else responses w ! r)"
  by (simp add: writeEvent_upd nth_list_update)

lemma broadcast_nth:
  "distinct ls \<Longrightarrow> r < length (responses w) \<Longrightarrow>
   responses (fold (\<lambda>l w'. writeEvent js w' l e) ls w) ! r =
     (if r \<in> set ls then (responses w ! r)\<lparr>written := written (responses w ! r) @ frame js e\<rparr>
      else responses w ! r)"
proof (induction ls arbitrary: w)
  case Nil
  then show ?case by simp
next
  case (Cons l ls)
  let ?w = "writeEvent js w l e"
  have len: "r < length (responses ?w)" using Cons.prems by simp
  have d: "distinct ls" and nl: "l \<notin> set ls" using Cons.prems by simp_all
  have "responses (fold (\<lambda>l w'. writeEvent js w' l e) (l # ls) w) ! r
        = responses (fold (\<lambda>l w'. writeEvent js w' l e) ls ?w) ! r" by simp
  also have "\<dots> = (if r \<in> set ls then (responses ?w ! r)\<lparr>written := written (responses ?w ! r) @ frame js e\<rparr>
      else responses ?w ! r)" by (rule Cons.IH [OF d len])
  also have "\<dots> = (if r \<in> set (l # ls) then (responses w ! r)\<lparr>written := written (responses w ! r) @ frame js e\<rparr>
      else responses w ! r)"
    using nl Cons.prems(2) by (auto simp: writeEvent_nth)
  finally show ?case .
qed

lemma emit_fields [simp]:
  "heap (emit js w a e) = (heap w)[a := (heap w ! a)\<lparr>events := events (heap w ! a) @ [e]\<rparr>]"
  "sessions (emit js w a e) = sessions w"
  "timers (emit js w a e) = timers w"
  "closing (emit js w a e) = closing w"
  "agents (emit js w a e) = agents w"
  "pending (emit js w a e) = pending w"
  "terminated (emit js w a e) = terminated w"
  "length (responses (emit js w a e)) = length (responses w)"
  by (simp_all add: emit_def Let_def)

lemma emit_nth:
  "distinct (listeners (heap w ! a)) \<Longrightarrow> r < length (responses w) \<Longrightarrow>
   responses (emit js w a e) ! r =
     (if r \<in> set (listeners (heap w ! a))
      then (responses w ! r)\<lparr>written := written (responses w ! r) @ frame js e\<rparr>
      else responses w ! r)"
  by (simp add: emit_def Let_def broadcast_nth)

lemma cleanup_fields [simp]:
  "heap (cleanupSessionIfIdle w a) = heap w"
  "responses (cleanupSessionIfIdle w a) = responses w"
  "timers (cleanupSessionIfIdle w a) = timers w"
  "closing (cleanupSessionIfIdle w a) = closing w"
  "agents (cleanupSessionIfIdle w a) = agents w"
  "pending (cleanupSessionIfIdle w a) = pending w"
  "terminated (cleanupSessionIfIdle w a) = terminated w"
  by (simp_all add: cleanupSessionIfIdle_def Let_def)

lemma cleanup_sessions:
  "sessions (cleanupSessionIfIdle w a) =
     (if completed (heap w ! a) \<and> listeners (heap w ! a) = []
      then (sessions w)(id' (heap w ! a) := None) else sessions w)"
  by (simp add: cleanupSessionIfIdle_def Let_def)

lemma run_settled_alt:
  "run_settled js w a out =
     (let w1 = emit js w a (settle_event out);
          w2 = w1\<lparr>pending := removeAll a (pending w1), terminated := terminated w1 @ [a]\<rparr>;
          w3 = w2\<lparr>heap := (heap w2)[a := (heap w2 ! a)\<lparr>completed := True\<rparr>]\<rparr>
      in cleanupSessionIfIdle w3 a)"
  by (cases out) (simp_all add: run_settled_def settle_event_def Let_def)

lemma run_settled_fields [simp]:
  "a < length (heap w) \<Longrightarrow> heap (run_settled js w a out) =
     (heap w)[a := (heap w ! a)\<lparr>events := events (heap w ! a) @ [settle_event out], completed := True\<rparr>]"
  "timers (run_settled js w a out) = timers w"
  "closing (run_settled js w a out) = closing w"
  "agents (run_settled js w a out) = agents w"
  "pending (run_settled js w a out) = removeAll a (pending w)"
  "terminated (run_settled js w a out) = terminated w @ [a]"
  "length (responses (run_settled js w a out)) = length (responses w)"
  by (simp_all add: run_settled_alt Let_def)

lemma run_settled_sessions:
  "a < length (heap w) \<Longrightarrow> sessions (run_settled js w a out) =
     (if listeners (heap w ! a) = [] then (sessions w)(id' (heap w ! a) := None) else sessions w)"
  by (simp add: run_settled_alt Let_def cleanup_sessions)

lemma on_close_fields [simp]:
  "heap (on_close w r a) = (heap w)[a := (heap w ! a)\<lparr>listeners := removeAll r (listeners (heap w ! a))\<rparr>]"
  "responses (on_close w r a) = responses w"
  "timers (on_close w r a) = removeAll r (timers w)"
  "closing (on_close w r a) = closing w"
  "agents (on_close w r a) = agents w"
  "pending (on_close w r a) = pending w"
  "terminated (on_close w r a) = terminated w"
  by (simp_all add: on_close_def Let_def)

lemma on_close_sessions:
  "a < length (heap w) \<Longrightarrow> sessions (on_close w r a) =
     (if completed (heap w ! a) \<and> removeAll r (listeners (heap w ! a)) = []
      then (sessions w)(id' (heap w ! a) := None) else sessions w)"
  by (simp add: on_close_def Let_def cleanup_sessions)

lemma get_stream_miss:
  "sessions w k = None \<Longrightarrow> get_stream js w r k = sendStatus r 404 w"
  by (simp add: get_stream_def)

lemma get_stream_hit_fields:
  assumes "sessions w k = Some a"
  shows "heap (get_stream js w r k) = (heap w)[a := (heap w ! a)\<lparr>listeners := set_add (listeners (heap w ! a)) r\<rparr>]"
    and "sessions (get_stream js w r k) = sessions w"
    and "timers (get_stream js w r k) = timers w @ [r]"
    and "closing (get_stream js w r k) = closing w @ [(r, a)]"
    and "agents (get_stream js w r k) = agents w"
    and "pending (get_stream js w r k) = pending w"
    and "terminated (get_stream js w r k) = terminated w"
    and "a < length (heap w) \<Longrightarrow> r < length (responses w) \<Longrightarrow> responses (get_stream js w r k) =
          (responses w)[r := (responses w ! r)\<lparr>statusCode := 200,
             headers := headers (responses w ! r) @ [(''Content-Type'', ''text/event-stream''),
                             (''Cache-Control'', ''no-cache, no-transform''),
                             (''Connection'', ''keep-alive'')],
             flushed := True,
             written := written (responses w ! r) @ concat (map (frame js) (events (heap w ! a)))\<rparr>]"
  using assms
  by (simp_all add: get_stream_def Let_def replay_upd open_stream_def upd_res_upd_res)

lemma wf_cong:
  assumes "wf w"
    and "length (heap w') = length (heap w)"
    and "\<forall>a < length (heap w). id' (heap w' ! a) = id' (heap w ! a) \<and>
           listeners (heap w' ! a) = listeners (heap w ! a) \<and>
           completed (heap w' ! a) = completed (heap w ! a)"
    and "sessions w' = sessions w" "closing w' = closing w" "pending w' = pending w"
    and "agents w' = agents w" "length (responses w) \<le> length (responses w')"
  shows "wf w'"
  using assms unfolding wf_def by (auto 0 3 simp: split_def)

lemma nth_upd: "j < length xs \<Longrightarrow> xs[i := x] ! j = (if i = j then x else xs ! j)"
  by (auto simp: nth_list_update)

lemma wf_init: "wf init"
  by (simp add: wf_def init_def)

lemma wf_emit: "wf w \<Longrightarrow> wf (emit js w a e)"
  by (erule wf_cong) (auto simp: nth_upd)

lemma wf_accept: "wf w \<Longrightarrow> wf (accept w)"
  by (erule wf_cong) (auto simp: accept_def)

lemma wf_upd_res: "wf w \<Longrightarrow> wf (upd_res r f w)"
  by (erule wf_cong) auto

lemma json_fields [simp]:
  "heap (json r c b w) = heap w" "sessions (json r c b w) = sessions w"
  "timers (json r c b w) = timers w" "closing (json r c b w) = closing w"
  "agents (json r c b w) = agents w" "pending (json r c b w) = pending w"
  "terminated (json r c b w) = terminated w"
  "length (responses (json r c b w)) = length (responses w)"
  by (simp_all add: json_def)

lemma accept_fields [simp]:
  "heap (accept w) = heap w" "sessions (accept w) = sessions w"
  "timers (accept w) = timers w" "closing (accept w) = closing w"
  "agents (accept w) = agents w" "pending (accept w) = pending w"
  "terminated (accept w) = terminated w"
  "responses (accept w) = responses w @ [new_response]"
  by (simp_all add: accept_def)

lemma post_run_reject:
  "prompt_text (property reqbody ''prompt'') = [] \<Longrightarrow>
   post_run w r reqbody uuid = json r 400 (ErrorBody ''Prompt is required'') w"
  by (simp add: post_run_def)

lemma post_run_admit_fields:
  assumes "prompt_text (property reqbody ''prompt'') \<noteq> []"
  shows "heap (post_run w r reqbody uuid) =
           heap w @ [\<lparr>id' = uuid, events = [], listeners = [], completed = False\<rparr>]"
    and "sessions (post_run w r reqbody uuid) = (sessions w)(uuid \<mapsto> length (heap w))"
    and "timers (post_run w r reqbody uuid) = timers w"
    and "closing (post_run w r reqbody uuid) = closing w"
    and "agents (post_run w r reqbody uuid) =
           agents w @ [(length (heap w), prompt_text (property reqbody ''prompt''))]"
    and "pending (post_run w r reqbody uuid) = pending w @ [length (heap w)]"
    and "terminated (post_run w r reqbody uuid) = terminated w"
    and "responses (post_run w r reqbody uuid) =
           (responses w)[r := (responses w ! r)\<lparr>statusCode := 200, sent := Some (SessionIdBody uuid)\<rparr>]"
  using assms
  by (simp_all add: post_run_def Let_def createSession_def runAgentForSession_def json_def)

lemma wf_post_run: "wf w \<Longrightarrow> wf (post_run w r reqbody uuid)"
proof (cases "prompt_text (property reqbody ''prompt'') = []")
  case True
  assume "wf w"
  then show ?thesis unfolding post_run_reject [OF True] json_def by (rule wf_upd_res)
next
  case False
  assume "wf w"
  then show ?thesis
    unfolding wf_def post_run_admit_fields [OF False]
    by (auto simp: nth_append split_def less_Suc_eq)
qed

lemma sendStatus_fields [simp]:
  "heap (sendStatus r c w) = heap w" "sessions (sendStatus r c w) = sessions w"
  "timers (sendStatus r c w) = timers w" "closing (sendStatus r c w) = closing w"
  "agents (sendStatus r c w) = agents w" "pending (sendStatus r c w) = pending w"
  "terminated (sendStatus r c w) = terminated w"
  "length (responses (sendStatus r c w)) = length (responses w)"
  by (simp_all add: sendStatus_def)

lemma get_stream_length [simp]:
  "length (responses (get_stream js w r k)) = length (responses w)"
  by (cases "sessions w k") (simp_all add: get_stream_def Let_def replay_upd open_stream_def)

lemma wf_get_stream:
  assumes "wf w"
  shows "wf (get_stream js (accept w) (length (responses w)) k)"
proof (cases "sessions w k")
  case None
  then have "get_stream js (accept w) (length (responses w)) k = sendStatus (length (responses w)) 404 (accept w)"
    by (simp add: get_stream_miss)
  then show ?thesis using assms by (simp add: sendStatus_def wf_upd_res wf_accept)
next
  case (Some a)
  then have s: "sessions (accept w) k = Some a" by simp
  have a: "a < length (heap w)" using assms Some by (auto simp: wf_def)
  have fresh: "\<forall>a' < length (heap w). length (responses w) \<notin> set (listeners (heap w ! a'))"
    using assms by (fastforce simp: wf_def)
  have fresh2: "length (responses w) \<notin> fst ` set (closing w)"
    using assms by (fastforce simp: wf_def)
  show ?thesis
    using assms a fresh fresh2
    unfolding wf_def get_stream_hit_fields(1-7) [OF s]
    by (auto simp: nth_upd split_def less_Suc_eq set_add_def)
qed

lemma wf_run_settled:
  assumes "wf w" and "a \<in> set (pending w)"
  shows "wf (run_settled js w a out)"
proof -
  have a: "a < length (heap w)" using assms by (auto simp: wf_def)
  show ?thesis
    using assms(1) a
    unfolding wf_def
    apply (simp add: run_settled_sessions nth_upd split_def)
    apply (intro conjI impI allI)
    apply (auto simp: nth_upd)
    done
qed

lemma wfI:
  assumes "\<And>k a. sessions w k = Some a \<Longrightarrow> a < length (heap w) \<and> id' (heap w ! a) = k \<and>
              \<not> (completed (heap w ! a) \<and> listeners (heap w ! a) = [])"
    and "\<And>a. a < length (heap w) \<Longrightarrow> distinct (listeners (heap w ! a))"
    and "\<And>a r. a < length (heap w) \<Longrightarrow> r \<in> set (listeners (heap w ! a)) \<Longrightarrow> (r, a) \<in> set (closing w)"
    and "distinct (map fst (closing w))"
    and "\<And>r a. (r, a) \<in> set (closing w) \<Longrightarrow>
            r < length (responses w) \<and> a < length (heap w) \<and> r \<in> set (listeners (heap w ! a))"
    and "\<And>a. a \<in> set (pending w) \<Longrightarrow> a < length (heap w) \<and> \<not> completed (heap w ! a)"
    and "\<And>a p. (a, p) \<in> set (agents w) \<Longrightarrow> a < length (heap w)"
  shows "wf w"
proof -
  have 1: "\<forall>k a. sessions w k = Some a \<longrightarrow>
        a < length (heap w) \<and> id' (heap w ! a) = k \<and>
        \<not> (completed (heap w ! a) \<and> listeners (heap w ! a) = [])"
    using assms(1) by blast
  have 2: "\<forall>a < length (heap w). distinct (listeners (heap w ! a)) \<and>
        (\<forall>r \<in> set (listeners (heap w ! a)). (r, a) \<in> set (closing w))"
    using assms(2,3) by blast
  have 4: "\<forall>(r, a) \<in> set (closing w).
        r < length (responses w) \<and> a < length (heap w) \<and> r \<in> set (listeners (heap w ! a))"
    using assms(5) by blast
  have 5: "\<forall>a \<in> set (pending w). a < length (heap w) \<and> \<not> completed (heap w ! a)"
    using assms(6) by blast
  have 6: "\<forall>a \<in> fst ` set (agents w). a < length (heap w)"
    using assms(7) by auto
  show ?thesis unfolding wf_def by (intro conjI 1 2 4 5 6 assms(4))
qed

lemma wf_reg: "wf w \<Longrightarrow> sessions w k = Some a \<Longrightarrow>
    a < length (heap w) \<and> id' (heap w ! a) = k \<and> \<not> (completed (heap w ! a) \<and> listeners (heap w ! a) = [])"
  unfolding wf_def by blast

lemma wf_distinct: "wf w \<Longrightarrow> a < length (heap w) \<Longrightarrow> distinct (listeners (heap w ! a))"
  unfolding wf_def by blast

lemma wf_lis: "wf w \<Longrightarrow> a < length (heap w) \<Longrightarrow> r \<in> set (listeners (heap w ! a)) \<Longrightarrow> (r, a) \<in> set (closing w)"
  unfolding wf_def by blast

lemma wf_clo_distinct: "wf w \<Longrightarrow> distinct (map fst (closing w))"
  unfolding wf_def by blast

lemma wf_clo: "wf w \<Longrightarrow> (r, a) \<in> set (closing w) \<Longrightarrow>
    r < length (responses w) \<and> a < length (heap w) \<and> r \<in> set (listeners (heap w ! a))"
proof -
  assume "wf w" and ra: "(r, a) \<in> set (closing w)"
  then have "\<forall>(r, a) \<in> set (closing w).
        r < length (responses w) \<and> a < length (heap w) \<and> r \<in> set (listeners (heap w ! a))"
    by (simp add: wf_def)
  from bspec [OF this ra] show ?thesis by simp
qed

lemma wf_pen: "wf w \<Longrightarrow> a \<in> set (pending w) \<Longrightarrow> a < length (heap w) \<and> \<not> completed (heap w ! a)"
  unfolding wf_def by blast

lemma wf_agt: "wf w \<Longrightarrow> (a, p) \<in> set (agents w) \<Longrightarrow> a < length (heap w)"
proof -
  assume "wf w" and "(a, p) \<in> set (agents w)"
  then have "\<forall>a \<in> fst ` set (agents w). a < length (heap w)" and "a \<in> fst ` set (agents w)"
    by (simp add: wf_def, simp add: image_iff, force)
  then show ?thesis by blast
qed

lemma wf_clo_unique: "wf w \<Longrightarrow> (r, a) \<in> set (closing w) \<Longrightarrow> (r, b) \<in> set (closing w) \<Longrightarrow> a = b"
  using wf_clo_distinct [of w] by (auto dest: eq_key_imp_eq_value)

lemma wf_close:
  assumes wf: "wf w" and m: "map_of (closing w) r = Some a"
  shows "wf (on_close (w\<lparr>closing := filter (\<lambda>p. fst p \<noteq> r) (closing w)\<rparr>) r a)"
    (is "wf ?w'")
proof -
  have ra: "(r, a) \<in> set (closing w)" using m by (rule map_of_SomeD)
  have a: "a < length (heap w)" using wf_clo [OF wf ra] by simp
  have only: "b = a" if "b < length (heap w)" "r \<in> set (listeners (heap w ! b))" for b
    using wf_clo_unique [OF wf wf_lis [OF wf that] ra] .
  have hp: "heap ?w' = (heap w)[a := (heap w ! a)\<lparr>listeners := removeAll r (listeners (heap w ! a))\<rparr>]"
    by simp
  have lis: "listeners (heap ?w' ! b) = (if b = a then removeAll r (listeners (heap w ! a)) else listeners (heap w ! b))"
    if "b < length (heap w)" for b using that by (simp add: nth_upd)
  have cmp: "completed (heap ?w' ! b) = completed (heap w ! b)"
    and idp: "id' (heap ?w' ! b) = id' (heap w ! b)"
    if "b < length (heap w)" for b using that by (simp_all add: nth_upd)
  have len: "length (heap ?w') = length (heap w)" by simp
  have clo: "closing ?w' = filter (\<lambda>p. fst p \<noteq> r) (closing w)" by simp
  have ses: "sessions ?w' = (if completed (heap w ! a) \<and> removeAll r (listeners (heap w ! a)) = []
      then (sessions w)(id' (heap w ! a) := None) else sessions w)"
    using a by (simp add: on_close_sessions)
  have pen: "pending ?w' = pending w" and agt: "agents ?w' = agents w"
    and res: "responses ?w' = responses w" by simp_all
  note on_close_fields [simp del]
  show ?thesis
  proof (rule wfI)
    fix k b assume "sessions ?w' k = Some b"
    then have sb: "sessions w k = Some b"
      and nd: "\<not> (completed (heap w ! a) \<and> removeAll r (listeners (heap w ! a)) = [] \<and> k = id' (heap w ! a))"
      unfolding ses by (auto split: if_splits)
    note R = wf_reg [OF wf sb]
    have "\<not> (completed (heap ?w' ! b) \<and> listeners (heap ?w' ! b) = [])"
    proof (cases "b = a")
      case True
      then show ?thesis using R nd by (simp add: lis cmp)
    next
      case False
      then show ?thesis using R by (simp add: lis cmp)
    qed
    then show "b < length (heap ?w') \<and> id' (heap ?w' ! b) = k \<and>
        \<not> (completed (heap ?w' ! b) \<and> listeners (heap ?w' ! b) = [])"
      using R by (simp only: len idp) simp
  next
    fix b assume "b < length (heap ?w')"
    then have b: "b < length (heap w)" by (simp add: len)
    show "distinct (listeners (heap ?w' ! b))"
      using wf_distinct [OF wf b] wf_distinct [OF wf a] by (simp add: lis [OF b] distinct_removeAll)
  next
    fix b r' assume "b < length (heap ?w')" and r': "r' \<in> set (listeners (heap ?w' ! b))"
    then have b: "b < length (heap w)" by (simp add: len)
    have in_old: "r' \<in> set (listeners (heap w ! b))" and ne: "r' \<noteq> r"
      using r' only [OF b] by (auto simp: lis [OF b] split: if_splits)
    show "(r', b) \<in> set (closing ?w')"
      unfolding clo using wf_lis [OF wf b in_old] ne by simp
  next
    show "distinct (map fst (closing ?w'))"
      unfolding clo using wf_clo_distinct [OF wf] by (simp add: distinct_map_filter)
  next
    fix r' b assume "(r', b) \<in> set (closing ?w')"
    then have old: "(r', b) \<in> set (closing w)" and ne: "r' \<noteq> r" unfolding clo by auto
    note C = wf_clo [OF wf old]
    have "r' \<in> set (listeners (heap ?w' ! b))"
      using C ne by (auto simp: lis)
    then show "r' < length (responses ?w') \<and> b < length (heap ?w') \<and> r' \<in> set (listeners (heap ?w' ! b))"
      using C by (simp add: res len)
  next
    fix b assume "b \<in> set (pending ?w')"
    then have "b \<in> set (pending w)" by (simp add: pen)
    from wf_pen [OF wf this]
    show "b < length (heap ?w') \<and> \<not> completed (heap ?w' ! b)"
      by (simp only: len cmp) simp
  next
    fix b p assume "(b, p) \<in> set (agents ?w')"
    then have "(b, p) \<in> set (agents w)" by (simp add: agt)
    from wf_agt [OF wf this] show "b < length (heap ?w')" by (simp add: len)
  qed
qed

lemma wf_res_write: "wf w \<Longrightarrow> wf (res_write r c w)"
  by (simp add: res_write_def wf_upd_res)

lemma wf_step: "wf w \<Longrightarrow> wf (step js fmt w act)"
proof (cases act)
  case (PostRun reqbody uuid)
  assume "wf w" then show ?thesis unfolding PostRun step.simps by (intro wf_post_run wf_accept)
next
  case (GetStream k)
  assume "wf w" then show ?thesis unfolding GetStream step.simps by (rule wf_get_stream)
next
  case (Close r)
  assume "wf w" then show ?thesis unfolding Close step.simps
    by (cases "map_of (closing w) r") (simp_all add: wf_close)
next
  case (KeepAlive r)
  assume "wf w" then show ?thesis unfolding KeepAlive step.simps
    by (simp add: keep_alive_def wf_res_write)
next
  case (OnItem a item)
  assume "wf w" then show ?thesis unfolding OnItem step.simps
    by (simp add: onItem_def wf_emit)
next
  case (OnLoading a l)
  assume "wf w" then show ?thesis unfolding OnLoading step.simps
    by (simp add: onLoading_def wf_emit)
next
  case (Settle a out)
  assume "wf w" then show ?thesis unfolding Settle step.simps
    by (simp add: wf_run_settled)
qed

lemma wf_foldl: "wf w \<Longrightarrow> wf (foldl (step js fmt) w acts)"
  by (induction acts arbitrary: w) (simp_all add: wf_step)

lemma wf_run: "wf (run js fmt acts)"
  unfolding run_def by (rule wf_foldl [OF wf_init])

lemma frame_no_keepalive: "filter (\<lambda>c. c \<noteq> '': keep-alive\<newline>\<newline>'') (frame js e) = frame js e"
  by (cases "data e") (simp_all add: frame_def)

lemma frames_no_keepalive:
  "filter (\<lambda>c. c \<noteq> '': keep-alive\<newline>\<newline>'') (concat (map (frame js) es)) = concat (map (frame js) es)"
  by (induction es) (simp_all add: frame_no_keepalive)

lemma synced_init: "synced js init"
  by (simp add: synced_def init_def)

text \<open>A step that leaves the registered streams, their logs and what was written to them alone.\<close>
lemma synced_cong:
  assumes "synced js w" "wf w"
    and "\<And>r a. (r, a) \<in> set (closing w') \<Longrightarrow> (r, a) \<in> set (closing w)"
    and "\<And>a. a < length (heap w) \<Longrightarrow> events (heap w' ! a) = events (heap w ! a)"
    and "\<And>r. r < length (responses w) \<Longrightarrow> received w' r = received w r"
  shows "synced js w'"
  unfolding synced_def
proof (intro allI impI)
  fix r a assume "(r, a) \<in> set (closing w')"
  then have ra: "(r, a) \<in> set (closing w)" by (rule assms(3))
  note C = wf_clo [OF assms(2) ra]
  have "received w' r = received w r" using C by (simp add: assms(5))
  also have "\<dots> = concat (map (frame js) (events (heap w ! a)))"
    using assms(1) ra by (simp add: synced_def)
  also have "\<dots> = concat (map (frame js) (events (heap w' ! a)))"
    using C by (simp add: assms(4))
  finally show "received w' r = concat (map (frame js) (events (heap w' ! a)))" .
qed

lemma received_eq: "responses w' ! r = responses w ! r \<Longrightarrow> received w' r = received w r"
  by (simp add: received_def)

lemma nth_app_upd: "r < length xs \<Longrightarrow> (xs @ ys)[length xs := y] ! r = xs ! r"
  by (simp add: nth_append)

lemma synced_post_run:
  assumes "synced js w" "wf w"
  shows "synced js (post_run (accept w) (length (responses w)) reqbody uuid)"
  using assms
proof (rule synced_cong)
  fix r a assume "(r, a) \<in> set (closing (post_run (accept w) (length (responses w)) reqbody uuid))"
  then show "(r, a) \<in> set (closing w)"
    by (cases "prompt_text (property reqbody ''prompt'') = []")
       (simp_all add: post_run_reject post_run_admit_fields)
next
  fix a assume "a < length (heap w)"
  then show "events (heap (post_run (accept w) (length (responses w)) reqbody uuid) ! a) = events (heap w ! a)"
    by (cases "prompt_text (property reqbody ''prompt'') = []")
       (simp_all add: post_run_reject post_run_admit_fields nth_append)
next
  fix r assume "r < length (responses w)"
  then have "responses (post_run (accept w) (length (responses w)) reqbody uuid) ! r = responses w ! r"
    by (cases "prompt_text (property reqbody ''prompt'') = []")
       (simp_all add: post_run_reject post_run_admit_fields json_def nth_app_upd nth_append)
  then show "received (post_run (accept w) (length (responses w)) reqbody uuid) r = received w r"
    by (rule received_eq)
qed

lemma synced_get_stream:
  assumes sy: "synced js w" and wf: "wf w"
  shows "synced js (get_stream js (accept w) (length (responses w)) k)" (is "synced js ?w'")
proof (cases "sessions w k")
  case None
  then have eq: "?w' = sendStatus (length (responses w)) 404 (accept w)"
    by (simp add: get_stream_miss)
  show ?thesis using sy wf
  proof (rule synced_cong)
    fix r assume "r < length (responses w)"
    then have "responses ?w' ! r = responses w ! r"
      by (simp add: eq sendStatus_def nth_app_upd nth_append)
    then show "received ?w' r = received w r" by (rule received_eq)
  qed (simp_all add: eq)
next
  case (Some a)
  then have s: "sessions (accept w) k = Some a" by simp
  have a: "a < length (heap w)" using wf_reg [OF wf Some] by simp
  note F = get_stream_hit_fields [OF s]
  have hp: "events (heap ?w' ! b) = events (heap w ! b)" if "b < length (heap w)" for b
    using that by (simp add: F(1) nth_upd)
  have rs: "responses ?w' = (responses w @ [new_response])[length (responses w) := new_response\<lparr>statusCode := 200,
             headers := [(''Content-Type'', ''text/event-stream''),
                             (''Cache-Control'', ''no-cache, no-transform''),
                             (''Connection'', ''keep-alive'')],
             flushed := True,
             written := concat (map (frame js) (events (heap w ! a)))\<rparr>]"
    using a by (simp add: F(8) new_response_def)
  show ?thesis unfolding synced_def
  proof (intro allI impI)
    fix r b assume "(r, b) \<in> set (closing ?w')"
    then consider (old) "(r, b) \<in> set (closing w)" | (new) "r = length (responses w)" "b = a"
      by (auto simp: F(4))
    then show "received ?w' r = concat (map (frame js) (events (heap ?w' ! b)))"
    proof cases
      case old
      note C = wf_clo [OF wf old]
      have "responses ?w' ! r = responses w ! r" using C by (simp add: rs nth_app_upd nth_append)
      then have "received ?w' r = received w r" by (rule received_eq)
      then show ?thesis using sy old C by (simp add: synced_def hp)
    next
      case new
      then show ?thesis using a by (simp add: received_def rs hp frames_no_keepalive)
    qed
  qed
qed

lemma synced_close:
  assumes "synced js w" "wf w"
  shows "synced js (on_close (w\<lparr>closing := filter (\<lambda>p. fst p \<noteq> r) (closing w)\<rparr>) r a)"
  using assms
proof (rule synced_cong)
  fix b assume "b < length (heap w)"
  then show "events (heap (on_close (w\<lparr>closing := filter (\<lambda>p. fst p \<noteq> r) (closing w)\<rparr>) r a) ! b) = events (heap w ! b)"
    by (simp add: nth_upd)
qed (simp_all add: received_def)

lemma synced_keep_alive:
  assumes "synced js w" "wf w"
  shows "synced js (keep_alive w r)"
  using assms
proof (rule synced_cong)
  fix r' assume "r' < length (responses w)"
  then show "received (keep_alive w r) r' = received w r'"
    by (simp add: keep_alive_def res_write_def received_def nth_upd)
qed (simp_all add: keep_alive_def res_write_def)

lemma synced_emit:
  assumes sy: "synced js w" and wf: "wf w" and a: "a < length (heap w)"
  shows "synced js (emit js w a e)"
  unfolding synced_def
proof (intro allI impI)
  fix r b assume "(r, b) \<in> set (closing (emit js w a e))"
  then have rb: "(r, b) \<in> set (closing w)" by simp
  note C = wf_clo [OF wf rb]
  have d: "distinct (listeners (heap w ! a))" using wf a by (rule wf_distinct)
  have old: "received w r = concat (map (frame js) (events (heap w ! b)))"
    using sy rb by (simp add: synced_def)
  show "received (emit js w a e) r = concat (map (frame js) (events (heap (emit js w a e) ! b)))"
  proof (cases "b = a")
    case True
    then have "r \<in> set (listeners (heap w ! a))" using C by simp
    then have "received (emit js w a e) r = received w r @ frame js e"
      using C by (simp add: received_def emit_nth [OF d] frame_no_keepalive)
    then show ?thesis using old True a by (simp add: nth_upd)
  next
    case False
    have "r \<notin> set (listeners (heap w ! a))"
    proof
      assume "r \<in> set (listeners (heap w ! a))"
      from wf_lis [OF wf a this] rb have "a = b" by (rule wf_clo_unique [OF wf])
      then show False using False by simp
    qed
    then have "received (emit js w a e) r = received w r"
      using C by (simp add: received_def emit_nth [OF d])
    then show ?thesis using old False C by (simp add: nth_upd)
  qed
qed

lemma synced_run_settled:
  assumes sy: "synced js w" and wf: "wf w" and a: "a < length (heap w)"
  shows "synced js (run_settled js w a out)"
proof -
  let ?w1 = "emit js w a (settle_event out)"
  have sy1: "synced js ?w1" using sy wf a by (rule synced_emit)
  have wf1: "wf ?w1" using wf by (rule wf_emit)
  show ?thesis using sy1 wf1
  proof (rule synced_cong)
    fix b assume "b < length (heap ?w1)"
    then show "events (heap (run_settled js w a out) ! b) = events (heap ?w1 ! b)"
      using a by (simp add: nth_upd)
  next
    fix r assume "r < length (responses ?w1)"
    have "responses (run_settled js w a out) = responses ?w1"
      by (simp add: run_settled_alt Let_def)
    then show "received (run_settled js w a out) r = received ?w1 r"
      by (simp add: received_def)
  qed simp
qed

lemma synced_step: "synced js w \<Longrightarrow> wf w \<Longrightarrow> synced js (step js fmt w act)"
proof (cases act)
  case (PostRun reqbody uuid)
  assume "synced js w" "wf w" then show ?thesis unfolding PostRun step.simps by (rule synced_post_run)
next
  case (GetStream k)
  assume "synced js w" "wf w" then show ?thesis unfolding GetStream step.simps by (rule synced_get_stream)
next
  case (Close r)
  assume "synced js w" "wf w" then show ?thesis unfolding Close step.simps
    by (cases "map_of (closing w) r") (simp_all add: synced_close)
next
  case (KeepAlive r)
  assume "synced js w" "wf w" then show ?thesis unfolding KeepAlive step.simps
    by (simp add: synced_keep_alive)
next
  case (OnItem a item)
  assume "synced js w" "wf w" then show ?thesis unfolding OnItem step.simps
    by (auto simp: onItem_def intro!: synced_emit dest: wf_agt)
next
  case (OnLoading a l)
  assume "synced js w" "wf w" then show ?thesis unfolding OnLoading step.simps
    by (auto simp: onLoading_def intro!: synced_emit dest: wf_agt)
next
  case (Settle a out)
  assume "synced js w" "wf w" then show ?thesis unfolding Settle step.simps
    by (auto intro!: synced_run_settled dest: wf_pen)
qed

lemma synced_foldl: "synced js w \<Longrightarrow> wf w \<Longrightarrow> synced js (foldl (step js fmt) w acts)"
  by (induction acts arbitrary: w) (simp_all add: synced_step wf_step)

lemma synced_run: "synced js (run js fmt acts)"
  unfolding run_def by (rule synced_foldl [OF synced_init wf_init])

text \<open>The log of a session only grows.\<close>

lemma step_heap_length: "length (heap w) \<le> length (heap (step js fmt w act))"
proof (cases act)
  case (PostRun reqbody uuid)
  then show ?thesis
    by (cases "prompt_text (property reqbody ''prompt'') = []")
       (simp_all add: post_run_reject post_run_admit_fields)
next
  case (GetStream k)
  then show ?thesis
    by (cases "sessions w k") (simp_all add: get_stream_miss get_stream_hit_fields)
next
  case (Close r)
  then show ?thesis by (cases "map_of (closing w) r") simp_all
next
  case (KeepAlive r)
  then show ?thesis by (simp add: keep_alive_def res_write_def)
next
  case (OnItem a item)
  then show ?thesis by (simp add: onItem_def)
next
  case (OnLoading a l)
  then show ?thesis by (simp add: onLoading_def)
next
  case (Settle a out)
  then show ?thesis by (simp add: run_settled_alt Let_def)
qed

lemma step_events_emits:
  assumes a: "a < length (heap w)"
  shows "events (heap (step js fmt w act) ! a) = events (heap w ! a) @ emits fmt w a act"
proof (cases act)
  case (PostRun reqbody uuid)
  then show ?thesis using a
    by (cases "prompt_text (property reqbody ''prompt'') = []")
       (simp_all add: post_run_reject post_run_admit_fields nth_append)
next
  case (GetStream k)
  then show ?thesis using a
    by (cases "sessions w k") (simp_all add: get_stream_miss get_stream_hit_fields nth_upd)
next
  case (Close r)
  then show ?thesis using a by (cases "map_of (closing w) r") (simp_all add: nth_upd)
next
  case (KeepAlive r)
  then show ?thesis by (simp add: keep_alive_def res_write_def)
next
  case (OnItem b item)
  then show ?thesis using a by (simp add: onItem_def nth_upd)
next
  case (OnLoading b l)
  then show ?thesis using a by (simp add: onLoading_def nth_upd)
next
  case (Settle b out)
  then show ?thesis using a by (simp add: run_settled_alt Let_def nth_upd)
qed

lemma foldl_events_emitted:
  "a < length (heap w) \<Longrightarrow>
   events (heap (foldl (step js fmt) w acts) ! a) = events (heap w ! a) @ emitted js fmt w a acts"
proof (induction acts arbitrary: w)
  case Nil
  then show ?case by simp
next
  case (Cons act acts)
  have "a < length (heap (step js fmt w act))"
    using Cons.prems step_heap_length [of w js fmt act] by simp
  from Cons.IH [OF this] step_events_emits [OF Cons.prems, of js fmt act]
  show ?case by simp
qed

lemma step_closing_stays:
  "(r, a) \<in> set (closing w) \<Longrightarrow> act \<noteq> Close r \<Longrightarrow> (r, a) \<in> set (closing (step js fmt w act))"
proof (cases act)
  case (PostRun reqbody uuid)
  assume "(r, a) \<in> set (closing w)"
  then show ?thesis unfolding PostRun
    by (cases "prompt_text (property reqbody ''prompt'') = []")
       (simp_all add: post_run_reject post_run_admit_fields)
next
  case (GetStream k)
  assume "(r, a) \<in> set (closing w)"
  then show ?thesis unfolding GetStream
    by (cases "sessions w k") (simp_all add: get_stream_miss get_stream_hit_fields)
next
  case (Close r')
  assume "(r, a) \<in> set (closing w)" "act \<noteq> Close r"
  then show ?thesis unfolding Close by (cases "map_of (closing w) r'") auto
next
  case (KeepAlive r')
  assume "(r, a) \<in> set (closing w)"
  then show ?thesis unfolding KeepAlive by (simp add: keep_alive_def res_write_def)
next
  case (OnItem b item)
  assume "(r, a) \<in> set (closing w)"
  then show ?thesis unfolding OnItem by (simp add: onItem_def)
next
  case (OnLoading b l)
  assume "(r, a) \<in> set (closing w)"
  then show ?thesis unfolding OnLoading by (simp add: onLoading_def)
next
  case (Settle b out)
  assume "(r, a) \<in> set (closing w)"
  then show ?thesis unfolding Settle by simp
qed

lemma foldl_closing_stays:
  "(r, a) \<in> set (closing w) \<Longrightarrow> Close r \<notin> set acts \<Longrightarrow>
   (r, a) \<in> set (closing (foldl (step js fmt) w acts))"
  by (induction acts arbitrary: w) (auto simp: step_closing_stays)


text \<open>A response with no keep-alive timer and no close handler is never touched again.\<close>

lemma step_detached:
  assumes wf: "wf w" and r: "r < length (responses w)"
    and nt: "r \<notin> set (timers w)" and nc: "r \<notin> fst ` set (closing w)"
  shows "responses (step js fmt w act) ! r = responses w ! r \<and>
         r < length (responses (step js fmt w act)) \<and>
         r \<notin> set (timers (step js fmt w act)) \<and>
         r \<notin> fst ` set (closing (step js fmt w act))"
proof -
  have nl: "r \<notin> set (listeners (heap w ! b))" if "b < length (heap w)" for b
  proof
    assume "r \<in> set (listeners (heap w ! b))"
    from wf_lis [OF wf that this] nc show False by force
  qed
  show ?thesis
  proof (cases act)
    case (PostRun reqbody uuid)
    show ?thesis
    proof (cases "prompt_text (property reqbody ''prompt'') = []")
      case True
      show ?thesis unfolding PostRun step.simps post_run_reject [OF True]
        using r nt nc by (simp add: json_def nth_append)
    next
      case False
      show ?thesis unfolding PostRun step.simps post_run_admit_fields [OF False]
        using r nt nc by (simp add: nth_append)
    qed
  next
    case (GetStream k)
    show ?thesis
    proof (cases "sessions w k")
      case None
      then show ?thesis unfolding GetStream step.simps
        using r nt nc by (simp add: get_stream_miss sendStatus_def nth_append)
    next
      case (Some a)
      then have s: "sessions (accept w) k = Some a" by simp
      have a: "a < length (heap (accept w))" using wf_reg [OF wf Some] by simp
      have rr: "length (responses w) < length (responses (accept w))" by simp
      show ?thesis unfolding GetStream step.simps
        using r nt nc
        by (auto simp: get_stream_hit_fields(3,4) [OF s] get_stream_hit_fields(8) [OF s a rr] nth_append)
    qed
  next
    case (Close r')
    show ?thesis unfolding Close
      using r nt nc by (cases "map_of (closing w) r'") auto
  next
    case (KeepAlive r')
    show ?thesis unfolding KeepAlive
      using r nt nc by (auto simp: keep_alive_def res_write_def nth_upd)
  next
    case (OnItem b item)
    show ?thesis
    proof (cases "b \<in> fst ` set (agents w)")
      case False
      then show ?thesis unfolding OnItem using r nt nc by simp
    next
      case True
      then have b: "b < length (heap w)" using wf_agt [OF wf] by auto
      show ?thesis unfolding OnItem
        using True r nt nc nl [OF b] by (simp add: onItem_def emit_nth [OF wf_distinct [OF wf b]])
    qed
  next
    case (OnLoading b l)
    show ?thesis
    proof (cases "b \<in> fst ` set (agents w)")
      case False
      then show ?thesis unfolding OnLoading using r nt nc by simp
    next
      case True
      then have b: "b < length (heap w)" using wf_agt [OF wf] by auto
      show ?thesis unfolding OnLoading
        using True r nt nc nl [OF b] by (simp add: onLoading_def emit_nth [OF wf_distinct [OF wf b]])
    qed
  next
    case (Settle b out)
    show ?thesis
    proof (cases "b \<in> set (pending w)")
      case False
      then show ?thesis unfolding Settle using r nt nc by simp
    next
      case True
      then have b: "b < length (heap w)" using wf_pen [OF wf] by auto
      have "responses (run_settled js w b out) = responses (emit js w b (settle_event out))"
        by (simp add: run_settled_alt Let_def)
      then show ?thesis unfolding Settle
        using True r nt nc nl [OF b] by (simp add: emit_nth [OF wf_distinct [OF wf b]])
    qed
  qed
qed

lemma foldl_detached:
  "wf w \<Longrightarrow> r < length (responses w) \<Longrightarrow> r \<notin> set (timers w) \<Longrightarrow>
   r \<notin> fst ` set (closing w) \<Longrightarrow>
   responses (foldl (step js fmt) w acts) ! r = responses w ! r"
proof (induction acts arbitrary: w)
  case Nil
  show ?case by simp
next
  case (Cons act acts)
  note S = step_detached [OF Cons.prems, of js fmt act]
  have "responses (foldl (step js fmt) (step js fmt w act) acts) ! r = responses (step js fmt w act) ! r"
    using S by (intro Cons.IH wf_step Cons.prems(1)) simp_all
  then show ?case using S by simp
qed

text \<open>Timers and close handlers belong to responses that exist.\<close>

lemma wf_timers_step:
  assumes "wf w" and "\<forall>r \<in> set (timers w). r < length (responses w)"
  shows "\<forall>r \<in> set (timers (step js fmt w act)). r < length (responses (step js fmt w act))"
proof (cases act)
  case (PostRun reqbody uuid)
  show ?thesis unfolding PostRun step.simps using assms(2)
    by (cases "prompt_text (property reqbody ''prompt'') = []")
       (auto simp: post_run_reject post_run_admit_fields less_Suc_eq)
next
  case (GetStream k)
  show ?thesis unfolding GetStream step.simps using assms(2)
    by (cases "sessions w k") (auto simp: get_stream_miss get_stream_hit_fields(3) less_Suc_eq)
next
  case (Close r')
  show ?thesis unfolding Close using assms(2) by (cases "map_of (closing w) r'") auto
next
  case (KeepAlive r')
  show ?thesis unfolding KeepAlive using assms(2) by (auto simp: keep_alive_def res_write_def)
next
  case (OnItem b item)
  show ?thesis unfolding OnItem using assms(2) by (auto simp: onItem_def)
next
  case (OnLoading b l)
  show ?thesis unfolding OnLoading using assms(2) by (auto simp: onLoading_def)
next
  case (Settle b out)
  show ?thesis unfolding Settle using assms(2) by auto
qed

lemma timers_run: "\<forall>r \<in> set (timers (run js fmt acts)). r < length (responses (run js fmt acts))"
proof (induction acts rule: rev_induct)
  case Nil
  show ?case by (simp add: run_def init_def)
next
  case (snoc act acts)
  have "run js fmt (acts @ [act]) = step js fmt (run js fmt acts) act" by (simp add: run_def)
  then show ?case using wf_timers_step [OF wf_run snoc] by simp
qed

section \<open>The registry invariant and settled runs\<close>

lemma reg_inv_init: "reg_inv init"
  by (simp add: reg_inv_def init_def)

lemma distinct_ids:
  "distinct (map id' (heap w)) \<Longrightarrow> a < length (heap w) \<Longrightarrow> b < length (heap w) \<Longrightarrow>
   id' (heap w ! a) = id' (heap w ! b) \<Longrightarrow> a = b"
  using nth_eq_iff_index_eq [of "map id' (heap w)" a b] by simp

lemma map_upd_same: "f x = f (xs ! a) \<Longrightarrow> map f (xs[a := x]) = map f xs"
proof (induction xs arbitrary: a)
  case Nil
  show ?case by simp
next
  case (Cons y ys)
  then show ?case by (cases a) simp_all
qed

text \<open>A step only appends to the list of session identifiers.\<close>

lemma step_ids: "\<exists>xs. map id' (heap (step js fmt w act)) = map id' (heap w) @ xs"
proof (cases act)
  case (PostRun reqbody uuid)
  then show ?thesis
    by (cases "prompt_text (property reqbody ''prompt'') = []")
       (simp_all add: post_run_reject post_run_admit_fields)
next
  case (GetStream k)
  then show ?thesis
    by (cases "sessions w k") (simp_all add: get_stream_miss get_stream_hit_fields map_upd_same)
next
  case (Close r)
  then show ?thesis by (cases "map_of (closing w) r") (simp_all add: map_upd_same)
next
  case (KeepAlive r)
  then show ?thesis by (simp add: keep_alive_def res_write_def)
next
  case (OnItem a item)
  then show ?thesis by (simp add: onItem_def map_upd_same)
next
  case (OnLoading a l)
  then show ?thesis by (simp add: onLoading_def map_upd_same)
next
  case (Settle a out)
  then show ?thesis
    by (cases "a < length (heap w)") (simp_all add: run_settled_alt Let_def map_upd_same list_update_beyond)
qed

lemma foldl_ids: "\<exists>xs. map id' (heap (foldl (step js fmt) w acts)) = map id' (heap w) @ xs"
proof (induction acts arbitrary: w)
  case Nil
  show ?case by simp
next
  case (Cons act acts)
  from Cons [of "step js fmt w act"] obtain ys
    where "map id' (heap (foldl (step js fmt) (step js fmt w act) acts)) = map id' (heap (step js fmt w act)) @ ys"
    by blast
  moreover from step_ids [of js fmt w act] obtain xs
    where "map id' (heap (step js fmt w act)) = map id' (heap w) @ xs" by blast
  ultimately show ?case by simp
qed

lemma distinct_prefix_step:
  "distinct (map id' (heap (step js fmt w act))) \<Longrightarrow> distinct (map id' (heap w))"
  using step_ids [of js fmt w act] by (metis distinct_append)

lemma reg_inv_step:
  assumes wf: "wf w" and ri: "reg_inv w" and d: "distinct (map id' (heap (step js fmt w act)))"
  shows "reg_inv (step js fmt w act)"
proof -
  have d0: "distinct (map id' (heap w))" using d by (rule distinct_prefix_step)
  note inj = distinct_ids [OF d0]
  have R: "in_registry w b \<longleftrightarrow> \<not> (completed (heap w ! b) \<and> listeners (heap w ! b) = [])"
    if "b < length (heap w)" for b using ri that by (simp add: reg_inv_def)
  have same: "reg_inv w'" if "sessions w' = sessions w" "length (heap w') = length (heap w)"
    "\<And>b. b < length (heap w) \<Longrightarrow> id' (heap w' ! b) = id' (heap w ! b) \<and>
        completed (heap w' ! b) = completed (heap w ! b) \<and> listeners (heap w' ! b) = listeners (heap w ! b)"
    for w'
    unfolding reg_inv_def in_registry_def using that R by (simp add: in_registry_def)
  show ?thesis
  proof (cases act)
    case (PostRun reqbody uuid)
    show ?thesis
    proof (cases "prompt_text (property reqbody ''prompt'') = []")
      case True
      show ?thesis unfolding PostRun step.simps post_run_reject [OF True]
        by (rule same) simp_all
    next
      case False
      note F = post_run_admit_fields [OF False]
      have fresh: "uuid \<notin> set (map id' (heap w))"
        using d unfolding PostRun step.simps F(1) by simp
      show ?thesis unfolding reg_inv_def in_registry_def PostRun step.simps F(1,2)
      proof (intro allI impI)
        fix b assume "b < length (heap (accept w) @ [\<lparr>id' = uuid, events = [], listeners = [], completed = False\<rparr>])"
        then consider (old) "b < length (heap w)" | (new) "b = length (heap w)" by (auto simp: less_Suc_eq)
        then show "((sessions (accept w))(uuid \<mapsto> length (heap (accept w))))
                (id' ((heap (accept w) @ [\<lparr>id' = uuid, events = [], listeners = [], completed = False\<rparr>]) ! b)) = Some b \<longleftrightarrow>
              \<not> (completed ((heap (accept w) @ [\<lparr>id' = uuid, events = [], listeners = [], completed = False\<rparr>]) ! b) \<and>
                 listeners ((heap (accept w) @ [\<lparr>id' = uuid, events = [], listeners = [], completed = False\<rparr>]) ! b) = [])"
        proof cases
          case old
          then have "id' (heap w ! b) \<noteq> uuid" using fresh by auto
          then show ?thesis using old R [OF old] by (simp add: nth_append in_registry_def)
        next
          case new
          then show ?thesis by simp
        qed
      qed
    qed
  next
    case (GetStream k)
    show ?thesis
    proof (cases "sessions w k")
      case None
      show ?thesis unfolding GetStream step.simps
        by (rule same) (simp_all add: get_stream_miss None)
    next
      case (Some a)
      then have s: "sessions (accept w) k = Some a" by simp
      note F = get_stream_hit_fields [OF s]
      note W = wf_reg [OF wf Some]
      have ina: "in_registry w a" using Some W by (simp add: in_registry_def)
      show ?thesis unfolding reg_inv_def in_registry_def GetStream step.simps F(1,2)
      proof (intro allI impI)
        fix b assume "b < length ((heap (accept w))[a := (heap (accept w) ! a)\<lparr>listeners := set_add (listeners (heap (accept w) ! a)) (length (responses w))\<rparr>])"
        then have b: "b < length (heap w)" by simp
        show "sessions (accept w) (id' ((heap (accept w))[a := (heap (accept w) ! a)\<lparr>listeners := set_add (listeners (heap (accept w) ! a)) (length (responses w))\<rparr>] ! b)) = Some b \<longleftrightarrow>
              \<not> (completed ((heap (accept w))[a := (heap (accept w) ! a)\<lparr>listeners := set_add (listeners (heap (accept w) ! a)) (length (responses w))\<rparr>] ! b) \<and>
                 listeners ((heap (accept w))[a := (heap (accept w) ! a)\<lparr>listeners := set_add (listeners (heap (accept w) ! a)) (length (responses w))\<rparr>] ! b) = [])"
        proof (cases "b = a")
          case True
          then show ?thesis using b ina by (auto simp: in_registry_def set_add_def)
        next
          case False
          then show ?thesis using b R [OF b] by (simp add: in_registry_def nth_upd)
        qed
      qed
    qed
  next
    case (Close r)
    show ?thesis
    proof (cases "map_of (closing w) r")
      case None
      then show ?thesis unfolding Close using ri by simp
    next
      case (Some a)
      have ra: "(r, a) \<in> set (closing w)" using Some by (rule map_of_SomeD)
      note C = wf_clo [OF wf ra]
      then have a: "a < length (heap w)" by simp
      have ina: "in_registry w a" using R [OF a] C by auto
      let ?w0 = "w\<lparr>closing := filter (\<lambda>p. fst p \<noteq> r) (closing w)\<rparr>"
      have a0: "a < length (heap ?w0)" using a by simp
      show ?thesis unfolding reg_inv_def in_registry_def Close step.simps Some option.case
      proof (intro allI impI)
        fix b assume "b < length (heap (on_close ?w0 r a))"
        then have b: "b < length (heap w)" by simp
        show "sessions (on_close ?w0 r a) (id' (heap (on_close ?w0 r a) ! b)) = Some b \<longleftrightarrow>
              \<not> (completed (heap (on_close ?w0 r a) ! b) \<and> listeners (heap (on_close ?w0 r a) ! b) = [])"
        proof (cases "b = a")
          case True
          then show ?thesis using b ina by (simp add: on_close_sessions [OF a0] in_registry_def)
        next
          case False
          then have "id' (heap w ! b) \<noteq> id' (heap w ! a)" using inj [OF b a] by blast
          then show ?thesis using False b R [OF b]
            by (simp add: on_close_sessions [OF a0] in_registry_def nth_upd)
        qed
      qed
    qed
  next
    case (KeepAlive r)
    show ?thesis unfolding KeepAlive step.simps
      by (cases "r \<in> set (timers w)") (simp_all add: ri, rule same, simp_all add: keep_alive_def res_write_def)
  next
    case (OnItem a item)
    show ?thesis unfolding OnItem step.simps
      by (cases "a \<in> fst ` set (agents w)") (simp_all add: ri, rule same, simp_all add: onItem_def nth_upd)
  next
    case (OnLoading a l)
    show ?thesis unfolding OnLoading step.simps
      by (cases "a \<in> fst ` set (agents w)") (simp_all add: ri, rule same, simp_all add: onLoading_def nth_upd)
  next
    case (Settle a out)
    show ?thesis
    proof (cases "a \<in> set (pending w)")
      case False
      then show ?thesis unfolding Settle using ri by simp
    next
      case True
      note P = wf_pen [OF wf True]
      then have a: "a < length (heap w)" by simp
      have ina: "in_registry w a" using R [OF a] P by simp
      show ?thesis unfolding reg_inv_def in_registry_def Settle step.simps
      proof (intro allI impI)
        fix b assume "b < length (heap (if a \<in> set (pending w) then run_settled js w a out else w))"
        then have b: "b < length (heap w)" using True a by simp
        show "sessions (if a \<in> set (pending w) then run_settled js w a out else w)
                (id' (heap (if a \<in> set (pending w) then run_settled js w a out else w) ! b)) = Some b \<longleftrightarrow>
              \<not> (completed (heap (if a \<in> set (pending w) then run_settled js w a out else w) ! b) \<and>
                 listeners (heap (if a \<in> set (pending w) then run_settled js w a out else w) ! b) = [])"
        proof (cases "b = a")
          case True
          then show ?thesis using \<open>a \<in> set (pending w)\<close> a ina
            by (simp add: run_settled_sessions in_registry_def)
        next
          case False
          then have "id' (heap w ! b) \<noteq> id' (heap w ! a)" using inj [OF b a] by blast
          then show ?thesis using False \<open>a \<in> set (pending w)\<close> a b R [OF b]
            by (simp add: run_settled_sessions in_registry_def nth_upd)
        qed
      qed
    qed
  qed
qed

lemma reg_inv_foldl:
  "wf w \<Longrightarrow> reg_inv w \<Longrightarrow> distinct (map id' (heap (foldl (step js fmt) w acts))) \<Longrightarrow>
   reg_inv (foldl (step js fmt) w acts)"
proof (induction acts arbitrary: w)
  case Nil
  then show ?case by simp
next
  case (Cons act acts)
  from foldl_ids [of js fmt "step js fmt w act" acts] Cons.prems(3)
  have "distinct (map id' (heap (step js fmt w act)))"
    by (metis distinct_append foldl_Cons)
  with Cons.prems have "reg_inv (step js fmt w act)" by (simp add: reg_inv_step)
  with Cons show ?case by (simp add: wf_step)
qed

lemma reg_inv_run:
  "distinct (map id' (heap (run js fmt acts))) \<Longrightarrow> reg_inv (run js fmt acts)"
  unfolding run_def by (rule reg_inv_foldl [OF wf_init reg_inv_init])

lemma quiet_init: "quiet init"
  by (simp add: quiet_def init_def)

lemma terminal_simps [simp]:
  "\<not> terminal \<lparr>type = ''item'', data = d\<rparr>"
  "\<not> terminal \<lparr>type = ''status'', data = d\<rparr>"
  "terminal (settle_event out)"
  by (simp_all add: terminal_def settle_event_def split: outcome.splits)

lemma quiet_step:
  assumes wf: "wf w" and q: "quiet w"
  shows "quiet (step js fmt w act)"
proof -
  have Q: "filter terminal (events (heap w ! b)) = []" if "b \<in> set (pending w)" for b
    using q that by (simp add: quiet_def)
  have P: "b < length (heap w)" if "b \<in> set (pending w)" for b
    using wf_pen [OF wf that] by simp
  show ?thesis
  proof (cases act)
    case (PostRun reqbody uuid)
    show ?thesis
    proof (cases "prompt_text (property reqbody ''prompt'') = []")
      case True
      then show ?thesis unfolding PostRun using q by (simp add: post_run_reject quiet_def)
    next
      case False
      show ?thesis unfolding PostRun step.simps quiet_def post_run_admit_fields [OF False]
        using Q P by (auto simp: nth_append)
    qed
  next
    case (GetStream k)
    show ?thesis
    proof (cases "sessions w k")
      case None
      then show ?thesis unfolding GetStream using q by (simp add: get_stream_miss quiet_def)
    next
      case (Some a)
      then have s: "sessions (accept w) k = Some a" by simp
      show ?thesis unfolding GetStream step.simps quiet_def get_stream_hit_fields [OF s]
        using Q P by (auto simp: nth_upd)
    qed
  next
    case (Close r)
    show ?thesis unfolding Close quiet_def
      using Q P by (cases "map_of (closing w) r") (auto simp: nth_upd)
  next
    case (KeepAlive r)
    show ?thesis unfolding KeepAlive using q by (simp add: keep_alive_def res_write_def quiet_def)
  next
    case (OnItem a item)
    show ?thesis unfolding OnItem quiet_def
      using Q P by (auto simp: onItem_def nth_upd)
  next
    case (OnLoading a l)
    show ?thesis unfolding OnLoading quiet_def
      using Q P by (auto simp: onLoading_def nth_upd)
  next
    case (Settle a out)
    show ?thesis unfolding Settle quiet_def
      using Q P by (auto simp: nth_upd)
  qed
qed

lemma quiet_foldl: "wf w \<Longrightarrow> quiet w \<Longrightarrow> quiet (foldl (step js fmt) w acts)"
  by (induction acts arbitrary: w) (simp_all add: quiet_step wf_step)

lemma quiet_run: "quiet (run js fmt acts)"
  unfolding run_def by (rule quiet_foldl [OF wf_init quiet_init])

text \<open>Once a run has settled, its session stays completed, is never pending again, and
  no further terminal event enters its log.\<close>

lemma settled_at_step:
  assumes "settled_at w a ts"
  shows "settled_at (step js fmt w act) a ts"
proof (cases act)
  case (PostRun reqbody uuid)
  show ?thesis
  proof (cases "prompt_text (property reqbody ''prompt'') = []")
    case True
    then show ?thesis unfolding PostRun using assms by (simp add: post_run_reject settled_at_def)
  next
    case False
    show ?thesis unfolding PostRun step.simps settled_at_def post_run_admit_fields [OF False]
      using assms by (auto simp: nth_append settled_at_def)
  qed
next
  case (GetStream k)
  show ?thesis
  proof (cases "sessions w k")
    case None
    then show ?thesis unfolding GetStream using assms by (simp add: get_stream_miss settled_at_def)
  next
    case (Some b)
    then have s: "sessions (accept w) k = Some b" by simp
    show ?thesis unfolding GetStream step.simps settled_at_def get_stream_hit_fields [OF s]
      using assms by (auto simp: nth_upd settled_at_def)
  qed
next
  case (Close r)
  show ?thesis unfolding Close settled_at_def
    using assms by (cases "map_of (closing w) r") (auto simp: nth_upd settled_at_def)
next
  case (KeepAlive r)
  show ?thesis unfolding KeepAlive using assms by (simp add: keep_alive_def res_write_def settled_at_def)
next
  case (OnItem b item)
  show ?thesis unfolding OnItem settled_at_def
    using assms by (auto simp: onItem_def nth_upd settled_at_def)
next
  case (OnLoading b l)
  show ?thesis unfolding OnLoading settled_at_def
    using assms by (auto simp: onLoading_def nth_upd settled_at_def)
next
  case (Settle b out)
  show ?thesis
  proof (cases "b \<in> set (pending w)")
    case False
    then show ?thesis unfolding Settle using assms by simp
  next
    case True
    then have "b \<noteq> a" using assms by (auto simp: settled_at_def)
    then show ?thesis unfolding Settle using assms True
      by (cases "b < length (heap w)")
         (auto simp: settled_at_def run_settled_alt Let_def nth_upd list_update_beyond)
  qed
qed

lemma settled_at_foldl: "settled_at w a ts \<Longrightarrow> settled_at (foldl (step js fmt) w acts) a ts"
  by (induction acts arbitrary: w) (simp_all add: settled_at_step)

section \<open>Claims about the multi-session server\<close>

text \<open>
  C1, as the code has it. An observer that attaches to a session the registry holds
  (before the first emission, between emissions, or after completion while another
  observer is still attached) has received, after any further turns of the event loop
  during which its connection stays open, exactly the frames of the events that were in
  the log when it attached, in log order, followed by exactly the frames of the events
  passed to \<open>emit\<close> for that session since, in call order: nothing skipped, nothing
  twice; and the log has grown by exactly those events. Keep-alive comments are not
  events. An attach to an identifier the registry does not hold, as after a run that
  completed with no observer attached, is answered 404 and receives nothing, then or
  later.
\<close>

theorem attach_receives_log_then_live:
  "(sessions (run js fmt acts1) k = Some a \<and>
    Close (length (responses (run js fmt acts1))) \<notin> set acts2 \<longrightarrow>
      events (heap (run js fmt (acts1 @ GetStream k # acts2)) ! a)
        = events (heap (run js fmt acts1) ! a) @
          emitted js fmt (run js fmt (acts1 @ [GetStream k])) a acts2 \<and>
      received (run js fmt (acts1 @ GetStream k # acts2)) (length (responses (run js fmt acts1)))
        = concat (map (frame js) (events (heap (run js fmt acts1) ! a))) @
          concat (map (frame js) (emitted js fmt (run js fmt (acts1 @ [GetStream k])) a acts2))) \<and>
   (sessions (run js fmt acts1) k = None \<longrightarrow>
      responses (run js fmt (acts1 @ GetStream k # acts2)) ! length (responses (run js fmt acts1))
        = \<lparr>statusCode = 404, headers = [], flushed = False, written = [], sent = Some StatusText\<rparr> \<and>
      received (run js fmt (acts1 @ GetStream k # acts2)) (length (responses (run js fmt acts1))) = [])"
proof (intro conjI impI)
  let ?w = "run js fmt acts1"
  let ?r = "length (responses ?w)"
  let ?w1 = "step js fmt ?w (GetStream k)"
  let ?w2 = "run js fmt (acts1 @ GetStream k # acts2)"
  have w1: "run js fmt (acts1 @ [GetStream k]) = ?w1" by (simp add: run_def)
  have w2: "?w2 = foldl (step js fmt) ?w1 acts2" by (simp add: run_def)
  have wf: "wf ?w" by (rule wf_run)
  have wf1: "wf ?w1" using wf by (rule wf_step)
  {
    assume h: "sessions ?w k = Some a \<and> Close ?r \<notin> set acts2"
    have a: "a < length (heap ?w)" using wf_reg [OF wf conjunct1 [OF h]] by simp
    have s: "sessions (accept ?w) k = Some a" using h by simp
    have "(?r, a) \<in> set (closing ?w1)"
      by (simp add: get_stream_hit_fields(4) [OF s])
    then have ra: "(?r, a) \<in> set (closing ?w2)"
      unfolding w2 using conjunct2 [OF h] by (rule foldl_closing_stays)
    have same: "events (heap ?w1 ! a) = events (heap ?w ! a)"
      using a by (simp add: get_stream_hit_fields(1) [OF s] nth_upd)
    have a1: "a < length (heap ?w1)"
      using a by (simp add: get_stream_hit_fields(1) [OF s])
    show E: "events (heap ?w2 ! a) =
        events (heap ?w ! a) @ emitted js fmt (run js fmt (acts1 @ [GetStream k])) a acts2"
      unfolding w1 w2 using foldl_events_emitted [OF a1, of js fmt acts2] same by simp
    have "synced js ?w2" by (rule synced_run)
    then have "received ?w2 ?r = concat (map (frame js) (events (heap ?w2 ! a)))"
      using ra by (simp add: synced_def)
    then show "received ?w2 ?r = concat (map (frame js) (events (heap ?w ! a))) @
        concat (map (frame js) (emitted js fmt (run js fmt (acts1 @ [GetStream k])) a acts2))"
      by (simp add: E)
  }
  {
    assume h: "sessions ?w k = None"
    have eq: "?w1 = ?w\<lparr>responses := responses ?w @
        [\<lparr>statusCode = 404, headers = [], flushed = False, written = [], sent = Some StatusText\<rparr>]\<rparr>"
      using h by (simp add: get_stream_miss sendStatus_def upd_res_def accept_def new_response_def)
    have r1: "?r < length (responses ?w1)" unfolding eq by simp
    have nt: "?r \<notin> set (timers ?w1)" unfolding eq using timers_run [of js fmt acts1] by auto
    have nc: "?r \<notin> fst ` set (closing ?w1)" unfolding eq using wf_clo [OF wf] by fastforce
    have "responses ?w2 ! ?r = responses ?w1 ! ?r"
      unfolding w2 using wf1 r1 nt nc by (rule foldl_detached)
    also have "\<dots> = \<lparr>statusCode = 404, headers = [], flushed = False, written = [], sent = Some StatusText\<rparr>"
      unfolding eq by simp
    finally show R: "responses ?w2 ! ?r =
        \<lparr>statusCode = 404, headers = [], flushed = False, written = [], sent = Some StatusText\<rparr>" .
    show "received ?w2 ?r = []" by (simp add: received_def R)
  }
qed

theorem attach_receives_log_then_live_witness:
  "(sessions (run ex_js (\<lambda>i. i) ex_before_attach) ''u1'' = Some 0 \<and>
    Close (length (responses (run ex_js (\<lambda>i. i) ex_before_attach))) \<notin> set ex_after_attach) \<and>
   emitted ex_js (\<lambda>i. i) (run ex_js (\<lambda>i. i) (ex_before_attach @ [GetStream ''u1''])) 0 ex_after_attach =
     [\<lparr>type = ''item'', data = Some (Text ''b.txt'')\<rparr>, \<lparr>type = ''complete'', data = None\<rparr>] \<and>
   events (heap (run ex_js (\<lambda>i. i) (ex_before_attach @ GetStream ''u1'' # ex_after_attach)) ! 0) =
     [\<lparr>type = ''item'', data = Some (Text ''a.txt'')\<rparr>,
      \<lparr>type = ''item'', data = Some (Text ''b.txt'')\<rparr>, \<lparr>type = ''complete'', data = None\<rparr>] \<and>
   received (run ex_js (\<lambda>i. i) (ex_before_attach @ GetStream ''u1'' # ex_after_attach)) 1 =
     [''event: item\<newline>'', ''data: {text:a.txt}\<newline>'', ''\<newline>'',
      ''event: item\<newline>'', ''data: {text:b.txt}\<newline>'', ''\<newline>'',
      ''event: complete\<newline>'', ''\<newline>''] \<and>
   sessions (run ex_js (\<lambda>i. i) ex_before_attach) ''u7'' = None \<and>
   received (run ex_js (\<lambda>i. i) (ex_before_attach @ GetStream ''u7'' # ex_after_attach)) 1 = []"
proof -
  let ?w = "run ex_js (\<lambda>i. i) ex_before_attach"
  have h1: "sessions ?w ''u1'' = Some 0 \<and> Close (length (responses ?w)) \<notin> set ex_after_attach"
    by code_simp
  have h2: "sessions ?w ''u7'' = None" by code_simp
  have n: "length (responses ?w) = 1" by code_simp
  have l: "events (heap ?w ! 0) = [\<lparr>type = ''item'', data = Some (Text ''a.txt'')\<rparr>]" by code_simp
  have e: "emitted ex_js (\<lambda>i. i) (run ex_js (\<lambda>i. i) (ex_before_attach @ [GetStream ''u1''])) 0 ex_after_attach =
     [\<lparr>type = ''item'', data = Some (Text ''b.txt'')\<rparr>, \<lparr>type = ''complete'', data = None\<rparr>]"
    by code_simp
  note R1 = attach_receives_log_then_live [of ex_js "\<lambda>i. i" ex_before_attach "''u1''" 0 ex_after_attach]
  note R2 = attach_receives_log_then_live [of ex_js "\<lambda>i. i" ex_before_attach "''u7''" 0 ex_after_attach]
  have 1: "events (heap (run ex_js (\<lambda>i. i) (ex_before_attach @ GetStream ''u1'' # ex_after_attach)) ! 0) =
      events (heap ?w ! 0) @
      emitted ex_js (\<lambda>i. i) (run ex_js (\<lambda>i. i) (ex_before_attach @ [GetStream ''u1''])) 0 ex_after_attach"
    and 2: "received (run ex_js (\<lambda>i. i) (ex_before_attach @ GetStream ''u1'' # ex_after_attach)) (length (responses ?w)) =
      concat (map (frame ex_js) (events (heap ?w ! 0))) @
      concat (map (frame ex_js)
        (emitted ex_js (\<lambda>i. i) (run ex_js (\<lambda>i. i) (ex_before_attach @ [GetStream ''u1''])) 0 ex_after_attach))"
    using R1 h1 by blast+
  have 3: "received (run ex_js (\<lambda>i. i) (ex_before_attach @ GetStream ''u7'' # ex_after_attach)) (length (responses ?w)) = []"
    using R2 h2 by blast
  have p1: "events (heap (run ex_js (\<lambda>i. i) (ex_before_attach @ GetStream ''u1'' # ex_after_attach)) ! 0) =
     [\<lparr>type = ''item'', data = Some (Text ''a.txt'')\<rparr>,
      \<lparr>type = ''item'', data = Some (Text ''b.txt'')\<rparr>, \<lparr>type = ''complete'', data = None\<rparr>]"
    using 1 by (simp add: l e)
  have p2: "received (run ex_js (\<lambda>i. i) (ex_before_attach @ GetStream ''u1'' # ex_after_attach)) 1 =
     [''event: item\<newline>'', ''data: {text:a.txt}\<newline>'', ''\<newline>'',
      ''event: item\<newline>'', ''data: {text:b.txt}\<newline>'', ''\<newline>'',
      ''event: complete\<newline>'', ''\<newline>'']"
    using 2 by (simp add: n l e frame_def ex_js_def)
  have p3: "received (run ex_js (\<lambda>i. i) (ex_before_attach @ GetStream ''u7'' # ex_after_attach)) 1 = []"
    using 3 by (simp add: n)
  show ?thesis using h1 h2 e p1 p2 p3 by blast
qed

text \<open>
  C1, as stated, fails for an attach after completion: a run that emits an item and
  completes while no observer is attached leaves a log of two events, but its session is
  reclaimed at once, and the observer that attaches afterwards is answered 404 and
  receives none of them.
\<close>

theorem attach_after_unobserved_completion_counterexample:
  "events (heap (run ex_js (\<lambda>i. i) ex_unobserved) ! 0) =
     [\<lparr>type = ''item'', data = Some (Text ''a.txt'')\<rparr>, \<lparr>type = ''complete'', data = None\<rparr>] \<and>
   completed (heap (run ex_js (\<lambda>i. i) ex_unobserved) ! 0) \<and>
   sessions (run ex_js (\<lambda>i. i) ex_unobserved) ''u1'' = None \<and>
   responses (run ex_js (\<lambda>i. i) (ex_unobserved @ [GetStream ''u1''])) ! 1 =
     \<lparr>statusCode = 404, headers = [], flushed = False, written = [], sent = Some StatusText\<rparr> \<and>
   received (run ex_js (\<lambda>i. i) (ex_unobserved @ [GetStream ''u1''])) 1 = []"
  by code_simp

text \<open>
  C7. A stream request for an identifier that the registry does not hold (never created,
  or reclaimed) is answered 404 and nothing else happens: the response carries no
  stream headers, is not flushed, nothing is written to it, no observer is added to any
  session, and no close handler or keep-alive timer is registered.
\<close>

theorem attach_unknown_not_found:
  assumes "sessions w k = None"
  shows "step js fmt w (GetStream k) =
           w\<lparr>responses := responses w @
               [\<lparr>statusCode = 404, headers = [], flushed = False, written = [], sent = Some StatusText\<rparr>]\<rparr>"
  using assms
  by (simp add: get_stream_miss sendStatus_def upd_res_def accept_def new_response_def)

theorem attach_unknown_not_found_witness:
  "sessions init ''nope'' = None \<and>
   step (\<lambda>p. ''{}'') (\<lambda>i::nat. ''i'') init (GetStream ''nope'') =
     init\<lparr>responses := responses init @
       [\<lparr>statusCode = 404, headers = [], flushed = False, written = [], sent = Some StatusText\<rparr>]\<rparr>"
proof -
  have h: "sessions init ''nope'' = None" by (simp add: init_def)
  show ?thesis using attach_unknown_not_found [OF h] h by blast
qed

text \<open>
  C10. Replay and live delivery write the same chunks for an event. At any reachable
  state: emitting an event appends to the connection of every attached observer exactly
  \<open>frame js e\<close>, an event line, a data line only when the event carries data, then a
  blank line; and a stream request to a session of the registry writes to the new
  connection exactly the frames of the logged events, one \<open>frame js e\<close> per event.
\<close>

theorem replay_and_live_same_frame:
  "(a < length (heap (run js fmt acts)) \<and> r \<in> set (listeners (heap (run js fmt acts) ! a)) \<longrightarrow>
      written (responses (emit js (run js fmt acts) a e) ! r)
        = written (responses (run js fmt acts) ! r) @ frame js e) \<and>
   (sessions (run js fmt acts) k = Some a \<longrightarrow>
      written (responses (step js fmt (run js fmt acts) (GetStream k)) ! length (responses (run js fmt acts)))
        = concat (map (frame js) (events (heap (run js fmt acts) ! a))))"
proof (intro conjI impI)
  let ?w = "run js fmt acts"
  have wf: "wf ?w" by (rule wf_run)
  {
    assume h: "a < length (heap ?w) \<and> r \<in> set (listeners (heap ?w ! a))"
    then have ra: "(r, a) \<in> set (closing ?w)" using wf_lis [OF wf] by blast
    have d: "distinct (listeners (heap ?w ! a))" using wf h by (simp add: wf_distinct)
    show "written (responses (emit js ?w a e) ! r) = written (responses ?w ! r) @ frame js e"
      using wf_clo [OF wf ra] h by (simp add: emit_nth [OF d])
  }
  {
    assume h: "sessions ?w k = Some a"
    then have s: "sessions (accept ?w) k = Some a" by simp
    have a: "a < length (heap ?w)" using wf_reg [OF wf h] by simp
    show "written (responses (step js fmt ?w (GetStream k)) ! length (responses ?w))
            = concat (map (frame js) (events (heap ?w ! a)))"
      using a by (simp add: get_stream_hit_fields(8) [OF s] new_response_def)
  }
qed

theorem replay_and_live_same_frame_witness:
  "(0 < length (heap (run ex_js (\<lambda>i. i) ex_observed)) \<and>
    1 \<in> set (listeners (heap (run ex_js (\<lambda>i. i) ex_observed) ! 0))) \<and>
   sessions (run ex_js (\<lambda>i. i) ex_observed) ''u1'' = Some 0 \<and>
   written (responses (emit ex_js (run ex_js (\<lambda>i. i) ex_observed) 0
        \<lparr>type = ''status'', data = Some (Loading True)\<rparr>) ! 1)
     = written (responses (run ex_js (\<lambda>i. i) ex_observed) ! 1) @
       [''event: status\<newline>'', ''data: {loading:true}\<newline>'', ''\<newline>''] \<and>
   written (responses (step ex_js (\<lambda>i. i) (run ex_js (\<lambda>i. i) ex_observed) (GetStream ''u1'')) ! 2)
     = [''event: status\<newline>'', ''data: {loading:true}\<newline>'', ''\<newline>'']"
proof -
  let ?w = "run ex_js (\<lambda>i. i) ex_observed"
  let ?e = "\<lparr>type = ''status'', data = Some (Loading True)\<rparr>"
  have h1: "0 < length (heap ?w) \<and> 1 \<in> set (listeners (heap ?w ! 0))" by code_simp
  have h2: "sessions ?w ''u1'' = Some 0" by code_simp
  have n: "length (responses ?w) = 2" by code_simp
  have l: "events (heap ?w ! 0) = [?e]" by code_simp
  have f: "frame ex_js ?e = [''event: status\<newline>'', ''data: {loading:true}\<newline>'', ''\<newline>'']"
    by (simp add: frame_def ex_js_def)
  note R = replay_and_live_same_frame [of 0 ex_js "\<lambda>i. i" ex_observed 1 ?e "''u1''"]
  have 1: "written (responses (emit ex_js ?w 0 ?e) ! 1) = written (responses ?w ! 1) @ frame ex_js ?e"
    using R h1 by blast
  have "written (responses (step ex_js (\<lambda>i. i) ?w (GetStream ''u1'')) ! length (responses ?w))
          = concat (map (frame ex_js) (events (heap ?w ! 0)))"
    using R h2 by blast
  then have 2: "written (responses (step ex_js (\<lambda>i. i) ?w (GetStream ''u1'')) ! 2) = frame ex_js ?e"
    by (simp add: n l)
  show ?thesis using h1 h2 1 2 unfolding f by blast
qed

text \<open>
  C2. Provided no two sessions were given the same identifier: at every reachable state,
  hence after every observer detach and after every run completion, the registry maps
  an identifier only to an allocated session carrying that identifier, and an allocated
  session is in the registry if and only if it is not both completed and unobserved.
\<close>

theorem registry_membership:
  assumes "distinct (map id' (heap (run js fmt acts)))"
  shows "(\<forall>k a. sessions (run js fmt acts) k = Some a \<longrightarrow>
            a < length (heap (run js fmt acts)) \<and> id' (heap (run js fmt acts) ! a) = k) \<and>
         (\<forall>a < length (heap (run js fmt acts)).
            sessions (run js fmt acts) (id' (heap (run js fmt acts) ! a)) = Some a \<longleftrightarrow>
            \<not> (completed (heap (run js fmt acts) ! a) \<and> listeners (heap (run js fmt acts) ! a) = []))"
proof
  show "\<forall>k a. sessions (run js fmt acts) k = Some a \<longrightarrow>
            a < length (heap (run js fmt acts)) \<and> id' (heap (run js fmt acts) ! a) = k"
    using wf_reg [OF wf_run] by blast
  show "\<forall>a < length (heap (run js fmt acts)).
            sessions (run js fmt acts) (id' (heap (run js fmt acts) ! a)) = Some a \<longleftrightarrow>
            \<not> (completed (heap (run js fmt acts) ! a) \<and> listeners (heap (run js fmt acts) ! a) = [])"
    using reg_inv_run [OF assms] by (simp add: reg_inv_def in_registry_def)
qed

theorem registry_membership_witness:
  "distinct (map id' (heap (run ex_js (\<lambda>i. i) ex_two_sessions))) \<and>
   (sessions (run ex_js (\<lambda>i. i) ex_two_sessions) ''u1'' = Some 0 \<longleftrightarrow>
      \<not> (completed (heap (run ex_js (\<lambda>i. i) ex_two_sessions) ! 0) \<and>
         listeners (heap (run ex_js (\<lambda>i. i) ex_two_sessions) ! 0) = [])) \<and>
   sessions (run ex_js (\<lambda>i. i) ex_two_sessions) ''u2'' = None"
proof -
  let ?w = "run ex_js (\<lambda>i. i) ex_two_sessions"
  have h: "distinct (map id' (heap ?w))" by code_simp
  have l: "0 < length (heap ?w)" "1 < length (heap ?w)" by code_simp+
  have i: "id' (heap ?w ! 0) = ''u1''" "id' (heap ?w ! 1) = ''u2''" by code_simp+
  have c: "completed (heap ?w ! 1) \<and> listeners (heap ?w ! 1) = []" by code_simp
  note R = conjunct2 [OF registry_membership [OF h]]
  have 0: "sessions ?w ''u1'' = Some 0 \<longleftrightarrow>
      \<not> (completed (heap ?w ! 0) \<and> listeners (heap ?w ! 0) = [])"
    using R l(1) i(1) by metis
  have "sessions ?w ''u2'' \<noteq> Some 1" using R l(2) i(2) c by metis
  moreover have "sessions ?w ''u2'' = Some a \<Longrightarrow> a = 1" for a
    using conjunct1 [OF registry_membership [OF h]] i(2) h l(2) distinct_ids by metis
  ultimately have 1: "sessions ?w ''u2'' = None" by (cases "sessions ?w ''u2''") auto
  show ?thesis using h 0 1 by blast
qed

text \<open>
  C5. When the awaited executor of a suspended run rejects with an \<^verbatim>\<open>Error\<close> of message
  \<open>m\<close>, that turn appends exactly one event to the session's log, the \<^verbatim>\<open>error\<close>
  event with \<open>{ message: m }\<close>; from then on, whatever follows, that event is the only
  \<^verbatim>\<open>error\<close> or \<^verbatim>\<open>complete\<close> event of the log, the session is completed, and whenever
  its observer set is empty the registry does not hold it.
\<close>

theorem executor_rejection:
  assumes "a \<in> set (pending (run js fmt acts1))"
  shows "events (heap (run js fmt (acts1 @ [Settle a (Rejected (ErrorObj m))])) ! a) =
           events (heap (run js fmt acts1) ! a) @ [\<lparr>type = ''error'', data = Some (Message m)\<rparr>] \<and>
         filter terminal (events (heap (run js fmt (acts1 @ Settle a (Rejected (ErrorObj m)) # acts2)) ! a)) =
           [\<lparr>type = ''error'', data = Some (Message m)\<rparr>] \<and>
         completed (heap (run js fmt (acts1 @ Settle a (Rejected (ErrorObj m)) # acts2)) ! a) \<and>
         (listeners (heap (run js fmt (acts1 @ Settle a (Rejected (ErrorObj m)) # acts2)) ! a) = [] \<longrightarrow>
            (\<forall>k. sessions (run js fmt (acts1 @ Settle a (Rejected (ErrorObj m)) # acts2)) k \<noteq> Some a))"
proof -
  let ?w = "run js fmt acts1"
  let ?e = "\<lparr>type = ''error'', data = Some (Message m)\<rparr>"
  let ?w1 = "step js fmt ?w (Settle a (Rejected (ErrorObj m)))"
  let ?w2 = "run js fmt (acts1 @ Settle a (Rejected (ErrorObj m)) # acts2)"
  have w1: "run js fmt (acts1 @ [Settle a (Rejected (ErrorObj m))]) = ?w1" by (simp add: run_def)
  have w2: "?w2 = foldl (step js fmt) ?w1 acts2" by (simp add: run_def)
  have wf: "wf ?w" by (rule wf_run)
  have a: "a < length (heap ?w)" using wf_pen [OF wf assms] by simp
  have se: "settle_event (Rejected (ErrorObj m)) = ?e" by (simp add: settle_event_def)
  have q: "filter terminal (events (heap ?w ! a)) = []"
    using quiet_run [of js fmt acts1] assms by (simp add: quiet_def)
  have ev: "events (heap ?w1 ! a) = events (heap ?w ! a) @ [?e]"
    using assms a by (simp add: se)
  have te: "terminal ?e" by (simp add: terminal_def)
  have "settled_at ?w1 a [?e]"
    using assms a q te by (simp add: settled_at_def se)
  then have S: "settled_at ?w2 a [?e]" unfolding w2 by (rule settled_at_foldl)
  have wf2: "wf ?w2" by (rule wf_run)
  have gone: "\<forall>k. sessions ?w2 k \<noteq> Some a" if "listeners (heap ?w2 ! a) = []"
    using wf_reg [OF wf2] S that by (auto simp: settled_at_def)
  show ?thesis unfolding w1 using ev S gone by (simp add: settled_at_def)
qed

theorem executor_rejection_witness:
  "0 \<in> set (pending (run ex_js (\<lambda>i. i) ex_observed)) \<and>
   filter terminal (events (heap (run ex_js (\<lambda>i. i)
       (ex_observed @ Settle 0 (Rejected (ErrorObj ''disk full'')) # [KeepAlive 1, Close 1])) ! 0)) =
     [\<lparr>type = ''error'', data = Some (Message ''disk full'')\<rparr>] \<and>
   completed (heap (run ex_js (\<lambda>i. i)
       (ex_observed @ Settle 0 (Rejected (ErrorObj ''disk full'')) # [KeepAlive 1, Close 1])) ! 0) \<and>
   (\<forall>k. sessions (run ex_js (\<lambda>i. i)
       (ex_observed @ Settle 0 (Rejected (ErrorObj ''disk full'')) # [KeepAlive 1, Close 1])) k \<noteq> Some 0)"
proof -
  have h: "0 \<in> set (pending (run ex_js (\<lambda>i. i) ex_observed))" by code_simp
  have e: "listeners (heap (run ex_js (\<lambda>i. i)
       (ex_observed @ Settle 0 (Rejected (ErrorObj ''disk full'')) # [KeepAlive 1, Close 1])) ! 0) = []"
    by code_simp
  show ?thesis
    using executor_rejection [OF h, of "''disk full''" "[KeepAlive 1, Close 1]"] h e by blast
qed

text \<open>
  C8. Reclaim is idempotent: a second \<open>cleanupSessionIfIdle\<close> on the same session changes
  nothing. Detach is idempotent: provided no two sessions were given the same
  identifier, at every reachable state the close handler, run for a connection that is
  not in the session's observer set, leaves every session (log, observers, completed),
  the registry and every response unchanged.
\<close>

theorem reclaim_and_detach_idempotent:
  "cleanupSessionIfIdle (cleanupSessionIfIdle w a) a = cleanupSessionIfIdle w a \<and>
   (distinct (map id' (heap (run js fmt acts))) \<and> a < length (heap (run js fmt acts)) \<and>
    r \<notin> set (listeners (heap (run js fmt acts) ! a)) \<longrightarrow>
      heap (on_close (run js fmt acts) r a) = heap (run js fmt acts) \<and>
      sessions (on_close (run js fmt acts) r a) = sessions (run js fmt acts) \<and>
      responses (on_close (run js fmt acts) r a) = responses (run js fmt acts))"
proof (intro conjI impI)
  show "cleanupSessionIfIdle (cleanupSessionIfIdle w a) a = cleanupSessionIfIdle w a"
    by (simp add: cleanupSessionIfIdle_def Let_def)
next
  let ?w = "run js fmt acts"
  assume h: "distinct (map id' (heap ?w)) \<and> a < length (heap ?w) \<and> r \<notin> set (listeners (heap ?w ! a))"
  then have a: "a < length (heap ?w)" and nr: "removeAll r (listeners (heap ?w ! a)) = listeners (heap ?w ! a)"
    by simp_all
  have ri: "reg_inv ?w" using h by (simp add: reg_inv_run)
  show hp: "heap (on_close ?w r a) = heap ?w" by (simp add: nr)
  show "responses (on_close ?w r a) = responses ?w" by simp
  show "sessions (on_close ?w r a) = sessions ?w"
  proof (cases "completed (heap ?w ! a) \<and> listeners (heap ?w ! a) = []")
    case False
    then show ?thesis using a by (auto simp: on_close_sessions nr)
  next
    case True
    then have "sessions ?w (id' (heap ?w ! a)) \<noteq> Some a"
      using ri a by (simp add: reg_inv_def in_registry_def)
    have "sessions ?w (id' (heap ?w ! a)) = None"
    proof (cases "sessions ?w (id' (heap ?w ! a))")
      case (Some b)
      note W = wf_reg [OF wf_run Some]
      then have "b = a" using h distinct_ids [of ?w b a] by simp
      then show ?thesis using Some \<open>sessions ?w (id' (heap ?w ! a)) \<noteq> Some a\<close> by simp
    qed simp
    then have "(sessions ?w)(id' (heap ?w ! a) := None) = sessions ?w" by (rule fun_upd_idem)
    then show ?thesis using a True by (simp add: on_close_sessions nr)
  qed
qed

theorem reclaim_and_detach_idempotent_witness:
  "(distinct (map id' (heap (run ex_js (\<lambda>i. i) ex_two_sessions))) \<and>
    0 < length (heap (run ex_js (\<lambda>i. i) ex_two_sessions)) \<and>
    7 \<notin> set (listeners (heap (run ex_js (\<lambda>i. i) ex_two_sessions) ! 0))) \<and>
   cleanupSessionIfIdle (cleanupSessionIfIdle (run ex_js (\<lambda>i. i) ex_two_sessions) 0) 0 =
     cleanupSessionIfIdle (run ex_js (\<lambda>i. i) ex_two_sessions) 0 \<and>
   heap (on_close (run ex_js (\<lambda>i. i) ex_two_sessions) 7 0) = heap (run ex_js (\<lambda>i. i) ex_two_sessions) \<and>
   sessions (on_close (run ex_js (\<lambda>i. i) ex_two_sessions) 7 0) =
     sessions (run ex_js (\<lambda>i. i) ex_two_sessions)"
proof -
  let ?w = "run ex_js (\<lambda>i. i) ex_two_sessions"
  have h: "distinct (map id' (heap ?w)) \<and> 0 < length (heap ?w) \<and> 7 \<notin> set (listeners (heap ?w ! 0))"
    by code_simp
  note R = reclaim_and_detach_idempotent [of ?w 0 ex_js "\<lambda>i. i" ex_two_sessions 7]
  show ?thesis using R h by blast
qed

section \<open>Effects and invariant of the single-flight server\<close>

lemma sf_json_fields [simp]:
  "activeRun (sf_json r c b w) = activeRun w"
  "requests (sf_json r c b w) = requests w"
  "invocations (sf_json r c b w) = invocations w"
  "sandboxStatus (sf_json r c b w) = sandboxStatus w"
  "exited (sf_json r c b w) = exited w"
  "sf_responses (sf_json r c b w) = (sf_responses w)[r := (sf_responses w ! r)\<lparr>sf_status := c, sf_sent := Some b\<rparr>]"
  by (simp_all add: sf_json_def)

lemma sf_post_conflict:
  "activeRun w \<noteq> None \<Longrightarrow>
   sf_post w r reqbody now = sf_json r 409 [(''error'', VStr ''Another run is already in progress.'')] w"
  by (simp add: sf_post_def)

lemma sf_post_invalid:
  "activeRun w = None \<Longrightarrow> prompt_text (property reqbody ''prompt'') = [] \<Longrightarrow>
   sf_post w r reqbody now = sf_json r 400 [(''error'', VStr ''Prompt is required.'')] w"
  by (simp add: sf_post_def)

lemma sf_post_admit:
  "activeRun w = None \<Longrightarrow> prompt_text (property reqbody ''prompt'') \<noteq> [] \<Longrightarrow>
   sf_post w r reqbody now =
     w\<lparr>requests := requests w @
          [\<lparr>res = r, results = [], loadingStates = [], lastResponseId = None,
            startedAt = now, fullStdout = property reqbody ''fullStdout'', settled = False\<rparr>],
        invocations := invocations w @
          [(prompt_text (property reqbody ''prompt''), image_paths (property reqbody ''images''))],
        activeRun := Some (length (requests w))\<rparr>"
  by (simp add: sf_post_def Let_def)

lemma sf_settled_fields [simp]:
  "activeRun (sf_settled w n out now) = None"
  "requests (sf_settled w n out now) = (requests w)[n := (requests w ! n)\<lparr>settled := True\<rparr>]"
  "invocations (sf_settled w n out now) = invocations w"
  "sandboxStatus (sf_settled w n out now) = sandboxStatus w"
  "length (sf_responses (sf_settled w n out now)) = length (sf_responses w)"
  by (cases out; simp add: sf_settled_def Let_def)+

lemma sf_settled_exited [simp]:
  "exited (sf_settled w n Resolved now) = exited w"
  "exited (sf_settled w n (Rejected e) now)"
  by (simp_all add: sf_settled_def Let_def)

lemma sf_wf_init: "sf_wf (sf_init sb)"
  by (simp add: sf_wf_def sf_init_def)

lemma sf_wf_handle: "sf_wf w \<Longrightarrow> \<not> exited w \<Longrightarrow> sf_wf (sf_handle w act)"
proof (cases act)
  case (SfPost reqbody now)
  assume wf: "sf_wf w" and ne: "\<not> exited w"
  let ?w0 = "w\<lparr>sf_responses := sf_responses w @ [\<lparr>sf_status = 200, sf_sent = None\<rparr>]\<rparr>"
  consider (c) "activeRun w \<noteq> None"
    | (i) "activeRun w = None" "prompt_text (property reqbody ''prompt'') = []"
    | (a) "activeRun w = None" "prompt_text (property reqbody ''prompt'') \<noteq> []" by blast
  then show ?thesis
  proof cases
    case c
    then have "sf_handle w act = sf_json (length (sf_responses w)) 409 [(''error'', VStr ''Another run is already in progress.'')] ?w0"
      by (simp add: SfPost sf_post_conflict)
    then show ?thesis using wf ne by (auto simp: sf_wf_def less_Suc_eq)
  next
    case i
    then have "sf_handle w act = sf_json (length (sf_responses w)) 400 [(''error'', VStr ''Prompt is required.'')] ?w0"
      by (simp add: SfPost sf_post_invalid)
    then show ?thesis using wf ne by (auto simp: sf_wf_def less_Suc_eq)
  next
    case a
    then show ?thesis using wf ne
      by (auto simp: SfPost sf_post_admit sf_wf_def nth_append less_Suc_eq)
  qed
next
  case (SfItem n item)
  assume "sf_wf w" "\<not> exited w" then show ?thesis
    by (auto simp: SfItem sf_onItem_def sf_wf_def nth_list_update)
next
  case (SfLoading n p)
  assume "sf_wf w" "\<not> exited w" then show ?thesis
    by (auto simp: SfLoading sf_onLoading_def sf_wf_def nth_list_update)
next
  case (SfLastResponseId n i)
  assume "sf_wf w" "\<not> exited w" then show ?thesis
    by (auto simp: SfLastResponseId sf_onLastResponseId_def sf_wf_def nth_list_update)
next
  case (SfSettle n out now)
  assume "sf_wf w" "\<not> exited w" then show ?thesis
    by (cases out) (auto simp: SfSettle sf_wf_def nth_list_update)
qed

lemma sf_wf_step: "sf_wf w \<Longrightarrow> sf_wf (sf_step w act)"
  by (simp add: sf_step_def sf_wf_handle)

lemma sf_wf_foldl: "sf_wf w \<Longrightarrow> sf_wf (foldl sf_step w acts)"
  by (induction acts arbitrary: w) (simp_all add: sf_wf_step)

lemma sf_wf_run: "sf_wf (sf_run sb acts)"
  unfolding sf_run_def by (rule sf_wf_foldl [OF sf_wf_init])

lemma sf_wf_outstanding:
  "sf_wf w \<Longrightarrow> n < length (requests w) \<Longrightarrow> \<not> settled (requests w ! n) \<Longrightarrow> activeRun w = Some n"
  unfolding sf_wf_def by blast

lemma sf_wf_alive:
  "sf_wf w \<Longrightarrow> n < length (requests w) \<Longrightarrow> \<not> settled (requests w ! n) \<Longrightarrow> \<not> exited w"
  unfolding sf_wf_def by auto

lemma sf_exited_foldl: "exited w \<Longrightarrow> foldl sf_step w acts = w"
  by (induction acts) (simp_all add: sf_step_def)

lemma sf_wf_res: "sf_wf w \<Longrightarrow> n < length (requests w) \<Longrightarrow> res (requests w ! n) < length (sf_responses w)"
  unfolding sf_wf_def by blast

lemma no_instruction_iff: "no_instruction reqbody \<longleftrightarrow> prompt_text (property reqbody ''prompt'') = []"
  by (simp add: no_instruction_def prompt_text_def split: jsval.splits)

lemma sf_handle_sandbox [simp]: "sandboxStatus (sf_handle w act) = sandboxStatus w"
  by (cases act) (simp_all add: sf_post_def Let_def sf_onItem_def sf_onLoading_def sf_onLastResponseId_def)

lemma sf_step_sandbox [simp]: "sandboxStatus (sf_step w act) = sandboxStatus w"
  by (simp add: sf_step_def)

lemma sf_foldl_sandbox [simp]: "sandboxStatus (foldl sf_step w acts) = sandboxStatus w"
  by (induction acts arbitrary: w) simp_all

lemma sf_run_sandbox: "sandboxStatus (sf_run sb acts) = sb"
  by (simp add: sf_run_def sf_init_def)





section \<open>Claims about the single-flight server\<close>

text \<open>
  C3. What the single-flight server does, at every reachable state. While a request is
  outstanding (admitted, its promise not settled): a start request is answered 409 with
  the conflict message and nothing else changes, so no second executor is started; when
  the outstanding promise resolves, the handle is cleared, the process runs on and no
  request is outstanding; when it rejects, the process ends after the reply, and from
  then on nothing changes whatever arrives: no later start request is admitted or even
  answered. While no request is outstanding and the process runs: a start request is
  never answered 409, and if it carries an instruction it is admitted: one executor is
  started with the trimmed instruction and the request becomes the outstanding one.
\<close>

theorem single_flight_admission:
  "(n < length (requests (sf_run sb acts)) \<and> \<not> settled (requests (sf_run sb acts) ! n) \<longrightarrow>
      sf_step (sf_run sb acts) (SfPost reqbody now) =
        (sf_run sb acts)\<lparr>sf_responses := sf_responses (sf_run sb acts) @
           [\<lparr>sf_status = 409, sf_sent = Some [(''error'', VStr ''Another run is already in progress.'')]\<rparr>]\<rparr> \<and>
      activeRun (sf_step (sf_run sb acts) (SfSettle n Resolved t)) = None \<and>
      \<not> exited (sf_step (sf_run sb acts) (SfSettle n Resolved t)) \<and>
      (\<forall>m < length (requests (sf_step (sf_run sb acts) (SfSettle n Resolved t))).
          settled (requests (sf_step (sf_run sb acts) (SfSettle n Resolved t)) ! m)) \<and>
      exited (sf_step (sf_run sb acts) (SfSettle n (Rejected e) t)) \<and>
      foldl sf_step (sf_step (sf_run sb acts) (SfSettle n (Rejected e) t)) later =
        sf_step (sf_run sb acts) (SfSettle n (Rejected e) t)) \<and>
   ((\<forall>m < length (requests (sf_run sb acts)). settled (requests (sf_run sb acts) ! m)) \<and>
    \<not> exited (sf_run sb acts) \<longrightarrow>
      sf_status (sf_responses (sf_step (sf_run sb acts) (SfPost reqbody now)) ! length (sf_responses (sf_run sb acts))) \<noteq> 409 \<and>
      (\<not> no_instruction reqbody \<longrightarrow>
         sf_step (sf_run sb acts) (SfPost reqbody now) =
           (sf_run sb acts)\<lparr>
              sf_responses := sf_responses (sf_run sb acts) @ [\<lparr>sf_status = 200, sf_sent = None\<rparr>],
              requests := requests (sf_run sb acts) @
                [\<lparr>res = length (sf_responses (sf_run sb acts)), results = [], loadingStates = [],
                  lastResponseId = None, startedAt = now, fullStdout = property reqbody ''fullStdout'',
                  settled = False\<rparr>],
              invocations := invocations (sf_run sb acts) @
                [(prompt_text (property reqbody ''prompt''), image_paths (property reqbody ''images''))],
              activeRun := Some (length (requests (sf_run sb acts)))\<rparr>))"
proof -
  let ?w = "sf_run sb acts"
  let ?ok = "sf_step ?w (SfSettle n Resolved t)"
  let ?ko = "sf_step ?w (SfSettle n (Rejected e) t)"
  have wf: "sf_wf ?w" by (rule sf_wf_run)
  have A: "sf_step ?w (SfPost reqbody now) =
        ?w\<lparr>sf_responses := sf_responses ?w @
           [\<lparr>sf_status = 409, sf_sent = Some [(''error'', VStr ''Another run is already in progress.'')]\<rparr>]\<rparr>"
     and B: "activeRun ?ok = None" and B': "\<not> exited ?ok"
     and C: "\<forall>m < length (requests ?ok). settled (requests ?ok ! m)"
     and F: "exited ?ko" and G: "foldl sf_step ?ko later = ?ko"
    if h: "n < length (requests ?w) \<and> \<not> settled (requests ?w ! n)"
  proof -
    have ar: "activeRun ?w = Some n" using wf h by (simp add: sf_wf_outstanding)
    have alive: "\<not> exited ?w" using sf_wf_alive [OF wf] h by blast
    show "sf_step ?w (SfPost reqbody now) =
        ?w\<lparr>sf_responses := sf_responses ?w @
           [\<lparr>sf_status = 409, sf_sent = Some [(''error'', VStr ''Another run is already in progress.'')]\<rparr>]\<rparr>"
      using ar alive by (simp add: sf_step_def sf_post_conflict sf_json_def)
    show "activeRun ?ok = None" using h alive by (simp add: sf_step_def)
    show "\<not> exited ?ok" using h alive by (simp add: sf_step_def)
    have others: "\<forall>m < length (requests ?w). m \<noteq> n \<longrightarrow> settled (requests ?w ! m)"
      using wf ar unfolding sf_wf_def by auto
    show "\<forall>m < length (requests ?ok). settled (requests ?ok ! m)"
      using h alive others by (auto simp: sf_step_def nth_list_update)
    show "exited ?ko" using h alive by (simp add: sf_step_def)
    then show "foldl sf_step ?ko later = ?ko" by (rule sf_exited_foldl)
  qed
  have D: "sf_status (sf_responses (sf_step ?w (SfPost reqbody now)) ! length (sf_responses ?w)) \<noteq> 409"
    and E: "\<not> no_instruction reqbody \<Longrightarrow>
         sf_step ?w (SfPost reqbody now) =
           ?w\<lparr>sf_responses := sf_responses ?w @ [\<lparr>sf_status = 200, sf_sent = None\<rparr>],
              requests := requests ?w @
                [\<lparr>res = length (sf_responses ?w), results = [], loadingStates = [],
                  lastResponseId = None, startedAt = now, fullStdout = property reqbody ''fullStdout'',
                  settled = False\<rparr>],
              invocations := invocations ?w @
                [(prompt_text (property reqbody ''prompt''), image_paths (property reqbody ''images''))],
              activeRun := Some (length (requests ?w))\<rparr>"
    if h: "(\<forall>m < length (requests ?w). settled (requests ?w ! m)) \<and> \<not> exited ?w"
  proof -
    have alive: "\<not> exited ?w" using h by simp
    have ar: "activeRun ?w = None"
    proof (cases "activeRun ?w")
      case (Some m)
      then have "m < length (requests ?w) \<and> \<not> settled (requests ?w ! m)"
        using wf unfolding sf_wf_def by auto
      then show ?thesis using h by blast
    qed simp
    show "sf_status (sf_responses (sf_step ?w (SfPost reqbody now)) ! length (sf_responses ?w)) \<noteq> 409"
      using ar alive
      by (cases "prompt_text (property reqbody ''prompt'') = []")
         (simp_all add: sf_step_def sf_post_invalid sf_post_admit)
    show "sf_step ?w (SfPost reqbody now) =
           ?w\<lparr>sf_responses := sf_responses ?w @ [\<lparr>sf_status = 200, sf_sent = None\<rparr>],
              requests := requests ?w @
                [\<lparr>res = length (sf_responses ?w), results = [], loadingStates = [],
                  lastResponseId = None, startedAt = now, fullStdout = property reqbody ''fullStdout'',
                  settled = False\<rparr>],
              invocations := invocations ?w @
                [(prompt_text (property reqbody ''prompt''), image_paths (property reqbody ''images''))],
              activeRun := Some (length (requests ?w))\<rparr>"
      if "\<not> no_instruction reqbody"
      using ar alive that by (simp add: sf_step_def no_instruction_iff sf_post_admit)
  qed
  show ?thesis using A B B' C D E F G by blast
qed

text \<open>
  The input at which the code leaves C3: a run is admitted and its executor rejects with
  \<^verbatim>\<open>disk full\<close>; the next start request, with a valid instruction, changes nothing:
  one executor invocation in all, one response in all, the process ended. After a run
  that resolves, the same request is admitted.
\<close>

theorem single_flight_admission_witness:
  "(0 < length (requests (sf_run NotApplicable ex_first_run)) \<and>
    \<not> settled (requests (sf_run NotApplicable ex_first_run) ! 0)) \<and>
   sf_run NotApplicable (ex_first_run @
       [SfSettle 0 (Rejected (ErrorObj ''disk full'')) 25, SfPost (ex_body ''again'') 30]) =
     sf_run NotApplicable (ex_first_run @ [SfSettle 0 (Rejected (ErrorObj ''disk full'')) 25]) \<and>
   exited (sf_run NotApplicable (ex_first_run @ [SfSettle 0 (Rejected (ErrorObj ''disk full'')) 25])) \<and>
   length (invocations (sf_run NotApplicable (ex_first_run @
       [SfSettle 0 (Rejected (ErrorObj ''disk full'')) 25]))) = 1 \<and>
   length (sf_responses (sf_run NotApplicable (ex_first_run @
       [SfSettle 0 (Rejected (ErrorObj ''disk full'')) 25]))) = 1 \<and>
   length (requests (sf_run NotApplicable (ex_first_run @ [SfSettle 0 Resolved 25]))) = 1 \<and>
   settled (requests (sf_run NotApplicable (ex_first_run @ [SfSettle 0 Resolved 25])) ! 0) \<and>
   \<not> exited (sf_run NotApplicable (ex_first_run @ [SfSettle 0 Resolved 25])) \<and>
   \<not> no_instruction (ex_body ''again'') \<and>
   activeRun (sf_step (sf_run NotApplicable (ex_first_run @ [SfSettle 0 Resolved 25]))
      (SfPost (ex_body ''again'') 30)) = Some 1"
proof -
  let ?w = "sf_run NotApplicable ex_first_run"
  let ?ko = "SfSettle 0 (Rejected (ErrorObj ''disk full'')) 25 :: (nat, bool) sf_action"
  let ?a2 = "ex_first_run @ [SfSettle 0 Resolved 25]"
  let ?post = "SfPost (ex_body ''again'') 30 :: (nat, bool) sf_action"
  have h1: "0 < length (requests ?w) \<and> \<not> settled (requests ?w ! 0)" by code_simp
  note R = single_flight_admission [of 0 NotApplicable ex_first_run "ex_body ''again''" 30 25
      "ErrorObj ''disk full''" "[?post]"]
  have ex: "exited (sf_step ?w ?ko)" and st: "foldl sf_step (sf_step ?w ?ko) [?post] = sf_step ?w ?ko"
    using R h1 by blast+
  have r1: "sf_run NotApplicable (ex_first_run @ [?ko, ?post]) = foldl sf_step (sf_step ?w ?ko) [?post]"
    and r2: "sf_run NotApplicable (ex_first_run @ [?ko]) = sf_step ?w ?ko"
    by (simp_all add: sf_run_def)
  have c1: "sf_run NotApplicable (ex_first_run @ [?ko, ?post]) = sf_run NotApplicable (ex_first_run @ [?ko])"
    unfolding r1 r2 by (rule st)
  have c2: "exited (sf_run NotApplicable (ex_first_run @ [?ko]))" unfolding r2 by (rule ex)
  have c3: "length (invocations (sf_run NotApplicable (ex_first_run @ [?ko]))) = 1"
    "length (sf_responses (sf_run NotApplicable (ex_first_run @ [?ko]))) = 1" by code_simp+
  have len: "length (requests (sf_run NotApplicable ?a2)) = 1" by code_simp
  have s0: "settled (requests (sf_run NotApplicable ?a2) ! 0)" by code_simp
  have al: "\<not> exited (sf_run NotApplicable ?a2)" by code_simp
  have h2: "(\<forall>m < length (requests (sf_run NotApplicable ?a2)). settled (requests (sf_run NotApplicable ?a2) ! m)) \<and>
      \<not> exited (sf_run NotApplicable ?a2)"
    using s0 al by (simp add: len)
  have h3: "\<not> no_instruction (ex_body ''again'')" by code_simp
  from single_flight_admission [of 0 NotApplicable ?a2 "ex_body ''again''" 30 25 "ErrorObj ''x''" "[]"] h2 h3
  have "sf_step (sf_run NotApplicable ?a2) ?post =
           (sf_run NotApplicable ?a2)\<lparr>
              sf_responses := sf_responses (sf_run NotApplicable ?a2) @ [\<lparr>sf_status = 200, sf_sent = None\<rparr>],
              requests := requests (sf_run NotApplicable ?a2) @
                [\<lparr>res = length (sf_responses (sf_run NotApplicable ?a2)), results = [], loadingStates = [],
                  lastResponseId = None, startedAt = 30, fullStdout = property (ex_body ''again'') ''fullStdout'',
                  settled = False\<rparr>],
              invocations := invocations (sf_run NotApplicable ?a2) @
                [(prompt_text (property (ex_body ''again'') ''prompt''), image_paths (property (ex_body ''again'') ''images''))],
              activeRun := Some (length (requests (sf_run NotApplicable ?a2)))\<rparr>"
    by blast
  then have c4: "activeRun (sf_step (sf_run NotApplicable ?a2) ?post) = Some 1"
    by (simp add: len)
  show ?thesis using h1 c1 c2 c3 len s0 al h3 c4 by blast
qed

text \<open>
  C4, as the code has it. When the promise of an outstanding request settles: on success
  the response is 200 with the buffered items, the loading transitions, the last
  response id the executor reported (if any), the duration, the sandbox status and the
  \<^verbatim>\<open>fullStdout\<close> flag; on failure the response is 500 with the error message, the
  buffered items, the duration and the sandbox status, and carries neither the loading
  transitions nor the last response id.
\<close>

theorem single_flight_response_bodies:
  "n < length (requests (sf_run sb acts)) \<and> \<not> settled (requests (sf_run sb acts) ! n) \<longrightarrow>
     sf_responses (sf_step (sf_run sb acts) (SfSettle n Resolved now)) ! res (requests (sf_run sb acts) ! n) =
       \<lparr>sf_status = 200,
        sf_sent = Some
          [(''items'', VItems (results (requests (sf_run sb acts) ! n))),
           (''loading'', VLoading (loadingStates (requests (sf_run sb acts) ! n))),
           (''lastResponseId'', VOptStr (lastResponseId (requests (sf_run sb acts) ! n))),
           (''durationMs'', VInt (now - startedAt (requests (sf_run sb acts) ! n))),
           (''sandbox'', VSandbox sb),
           (''fullStdout'', VBool (truthy (fullStdout (requests (sf_run sb acts) ! n))))]\<rparr> \<and>
     sf_responses (sf_step (sf_run sb acts) (SfSettle n (Rejected e) now)) ! res (requests (sf_run sb acts) ! n) =
       \<lparr>sf_status = 500,
        sf_sent = Some
          [(''error'', VStr (case e of ErrorObj m \<Rightarrow> m | NonError s \<Rightarrow> s)),
           (''items'', VItems (results (requests (sf_run sb acts) ! n))),
           (''durationMs'', VInt (now - startedAt (requests (sf_run sb acts) ! n))),
           (''sandbox'', VSandbox sb)]\<rparr>"
proof
  let ?w = "sf_run sb acts"
  assume h: "n < length (requests ?w) \<and> \<not> settled (requests ?w ! n)"
  have wf: "sf_wf ?w" by (rule sf_wf_run)
  have r: "res (requests ?w ! n) < length (sf_responses ?w)" using wf h by (simp add: sf_wf_res)
  have alive: "\<not> exited ?w" using sf_wf_alive [OF wf] h by blast
  have sb: "sandboxStatus ?w = sb" by (rule sf_run_sandbox)
  show "sf_responses (sf_step ?w (SfSettle n Resolved now)) ! res (requests ?w ! n) =
       \<lparr>sf_status = 200,
        sf_sent = Some
          [(''items'', VItems (results (requests ?w ! n))),
           (''loading'', VLoading (loadingStates (requests ?w ! n))),
           (''lastResponseId'', VOptStr (lastResponseId (requests ?w ! n))),
           (''durationMs'', VInt (now - startedAt (requests ?w ! n))),
           (''sandbox'', VSandbox sb),
           (''fullStdout'', VBool (truthy (fullStdout (requests ?w ! n))))]\<rparr> \<and>
     sf_responses (sf_step ?w (SfSettle n (Rejected e) now)) ! res (requests ?w ! n) =
       \<lparr>sf_status = 500,
        sf_sent = Some
          [(''error'', VStr (case e of ErrorObj m \<Rightarrow> m | NonError s \<Rightarrow> s)),
           (''items'', VItems (results (requests ?w ! n))),
           (''durationMs'', VInt (now - startedAt (requests ?w ! n))),
           (''sandbox'', VSandbox sb)]\<rparr>"
    using h r sb alive by (simp add: sf_step_def sf_settled_def Let_def)
qed

theorem single_flight_response_bodies_witness:
  "(0 < length (requests (sf_run NotApplicable ex_first_run)) \<and>
    \<not> settled (requests (sf_run NotApplicable ex_first_run) ! 0)) \<and>
   sf_responses (sf_step (sf_run NotApplicable ex_first_run) (SfSettle 0 Resolved 25)) ! 0 =
     \<lparr>sf_status = 200,
      sf_sent = Some [(''items'', VItems [1]), (''loading'', VLoading [(''loading'', True)]),
                      (''lastResponseId'', VOptStr (Some ''resp_1'')), (''durationMs'', VInt 15),
                      (''sandbox'', VSandbox NotApplicable), (''fullStdout'', VBool False)]\<rparr>"
proof -
  let ?w = "sf_run NotApplicable ex_first_run"
  have h: "0 < length (requests ?w) \<and> \<not> settled (requests ?w ! 0)" by code_simp
  have c: "requests ?w ! 0 = \<lparr>res = 0, results = [1], loadingStates = [(''loading'', True)],
      lastResponseId = Some ''resp_1'', startedAt = 10, fullStdout = JUndefined, settled = False\<rparr>"
    by code_simp
  have "sf_responses (sf_step ?w (SfSettle 0 Resolved 25)) ! res (requests ?w ! 0) =
       \<lparr>sf_status = 200,
        sf_sent = Some
          [(''items'', VItems (results (requests ?w ! 0))),
           (''loading'', VLoading (loadingStates (requests ?w ! 0))),
           (''lastResponseId'', VOptStr (lastResponseId (requests ?w ! 0))),
           (''durationMs'', VInt (25 - startedAt (requests ?w ! 0))),
           (''sandbox'', VSandbox NotApplicable),
           (''fullStdout'', VBool (truthy (fullStdout (requests ?w ! 0))))]\<rparr>"
    using single_flight_response_bodies [of 0 NotApplicable ex_first_run 25 "ErrorObj ''x''"] h by blast
  then show ?thesis using h by (simp add: c truthy_def)
qed

text \<open>
  C4, as stated, fails: a run that produced an item, a loading transition and a last
  response id, and then failed with \<^verbatim>\<open>disk full\<close>, is answered with a body that has no
  \<^verbatim>\<open>loading\<close> and no \<^verbatim>\<open>lastResponseId\<close> property.
\<close>

theorem failure_body_counterexample:
  "sf_responses (sf_run NotApplicable
      (ex_first_run @ [SfSettle 0 (Rejected (ErrorObj ''disk full'')) 25])) ! 0 =
    \<lparr>sf_status = 500,
     sf_sent = Some [(''error'', VStr ''disk full''), (''items'', VItems [1]),
                     (''durationMs'', VInt 15), (''sandbox'', VSandbox NotApplicable)]\<rparr> \<and>
   map_of (the (sf_sent (sf_responses (sf_run NotApplicable
      (ex_first_run @ [SfSettle 0 (Rejected (ErrorObj ''disk full'')) 25])) ! 0))) ''loading'' = None \<and>
   map_of (the (sf_sent (sf_responses (sf_run NotApplicable
      (ex_first_run @ [SfSettle 0 (Rejected (ErrorObj ''disk full'')) 25])) ! 0))) ''lastResponseId'' = None"
  by code_simp



section \<open>A claim about both servers\<close>

text \<open>
  C6, as the code has it. A start request whose instruction is missing, not a string, or
  empty after trimming is rejected and nothing but its response changes: no session is
  created, no identifier is read, the registry is unchanged and no executor is started.
  The multi-session server answers 400 with the validation message. The single-flight
  server, while its process runs, answers 400 with the validation message when no run is
  outstanding, and 409 with the conflict message when one is: it checks for a conflict
  first.
\<close>

theorem invalid_instruction_rejected:
  "no_instruction reqbody \<longrightarrow>
     step js fmt w (PostRun reqbody uuid) =
       w\<lparr>responses := responses w @
           [\<lparr>statusCode = 400, headers = [], flushed = False, written = [],
             sent = Some (ErrorBody ''Prompt is required'')\<rparr>]\<rparr> \<and>
     (\<not> exited v \<longrightarrow>
        sf_step v (SfPost reqbody now) =
          v\<lparr>sf_responses := sf_responses v @
              [if activeRun v = None
               then \<lparr>sf_status = 400, sf_sent = Some [(''error'', VStr ''Prompt is required.'')]\<rparr>
               else \<lparr>sf_status = 409, sf_sent = Some [(''error'', VStr ''Another run is already in progress.'')]\<rparr>]\<rparr>)"
proof
  assume "no_instruction reqbody"
  then have p: "prompt_text (property reqbody ''prompt'') = []" by (simp add: no_instruction_iff)
  have 1: "step js fmt w (PostRun reqbody uuid) =
       w\<lparr>responses := responses w @
           [\<lparr>statusCode = 400, headers = [], flushed = False, written = [],
             sent = Some (ErrorBody ''Prompt is required'')\<rparr>]\<rparr>"
    by (simp add: post_run_reject [OF p] json_def upd_res_def accept_def new_response_def)
  have 2: "\<not> exited v \<longrightarrow>
     sf_step v (SfPost reqbody now) =
       v\<lparr>sf_responses := sf_responses v @
           [if activeRun v = None
            then \<lparr>sf_status = 400, sf_sent = Some [(''error'', VStr ''Prompt is required.'')]\<rparr>
            else \<lparr>sf_status = 409, sf_sent = Some [(''error'', VStr ''Another run is already in progress.'')]\<rparr>]\<rparr>"
    using p by (cases "activeRun v = None") (simp_all add: sf_step_def sf_post_invalid sf_post_conflict sf_json_def)
  show "step js fmt w (PostRun reqbody uuid) =
       w\<lparr>responses := responses w @
           [\<lparr>statusCode = 400, headers = [], flushed = False, written = [],
             sent = Some (ErrorBody ''Prompt is required'')\<rparr>]\<rparr> \<and>
     (\<not> exited v \<longrightarrow>
        sf_step v (SfPost reqbody now) =
          v\<lparr>sf_responses := sf_responses v @
              [if activeRun v = None
               then \<lparr>sf_status = 400, sf_sent = Some [(''error'', VStr ''Prompt is required.'')]\<rparr>
               else \<lparr>sf_status = 409, sf_sent = Some [(''error'', VStr ''Another run is already in progress.'')]\<rparr>]\<rparr>)"
    using 1 2 by (rule conjI)
qed

theorem invalid_instruction_rejected_witness:
  "no_instruction (JObject [(''prompt'', JString ''  '')]) \<and>
   step ex_js (\<lambda>i. i) (run ex_js (\<lambda>i. i) ex_observed) (PostRun (JObject [(''prompt'', JString ''  '')]) ''u9'') =
     (run ex_js (\<lambda>i. i) ex_observed)\<lparr>responses := responses (run ex_js (\<lambda>i. i) ex_observed) @
        [\<lparr>statusCode = 400, headers = [], flushed = False, written = [],
          sent = Some (ErrorBody ''Prompt is required'')\<rparr>]\<rparr> \<and>
   \<not> exited (sf_init NotApplicable :: (nat, bool) sf_world) \<and>
   sf_status (sf_responses (sf_step (sf_init NotApplicable :: (nat, bool) sf_world)
       (SfPost (JObject [(''prompt'', JString ''  '')]) 5)) ! 0) = 400"
proof -
  have h: "no_instruction (JObject [(''prompt'', JString ''  '')])" by code_simp
  note R = invalid_instruction_rejected [of "JObject [(''prompt'', JString ''  '')]" ex_js "\<lambda>i. i"
      "run ex_js (\<lambda>i. i) ex_observed" "''u9''" "sf_init NotApplicable :: (nat, bool) sf_world" 5]
  have a: "activeRun (sf_init NotApplicable :: (nat, bool) sf_world) = None" by (simp add: sf_init_def)
  have e: "\<not> exited (sf_init NotApplicable :: (nat, bool) sf_world)" by (simp add: sf_init_def)
  from R h e have "step ex_js (\<lambda>i. i) (run ex_js (\<lambda>i. i) ex_observed) (PostRun (JObject [(''prompt'', JString ''  '')]) ''u9'') =
     (run ex_js (\<lambda>i. i) ex_observed)\<lparr>responses := responses (run ex_js (\<lambda>i. i) ex_observed) @
        [\<lparr>statusCode = 400, headers = [], flushed = False, written = [],
          sent = Some (ErrorBody ''Prompt is required'')\<rparr>]\<rparr>"
    and "sf_step (sf_init NotApplicable :: (nat, bool) sf_world) (SfPost (JObject [(''prompt'', JString ''  '')]) 5) =
       (sf_init NotApplicable)\<lparr>sf_responses := sf_responses (sf_init NotApplicable) @
           [if activeRun (sf_init NotApplicable :: (nat, bool) sf_world) = None
            then \<lparr>sf_status = 400, sf_sent = Some [(''error'', VStr ''Prompt is required.'')]\<rparr>
            else \<lparr>sf_status = 409, sf_sent = Some [(''error'', VStr ''Another run is already in progress.'')]\<rparr>]\<rparr>"
    by blast+
  then show ?thesis using h a e by (simp add: sf_init_def)
qed

text \<open>
  C6, as stated, fails on the single-flight server: while a run is outstanding, a start
  request without an instruction is answered 409 with the conflict message, not with a
  validation error.
\<close>

theorem invalid_instruction_conflict_counterexample:
  "no_instruction (JObject []) \<and>
   sf_responses (sf_run NotApplicable (ex_first_run @ [SfPost (JObject []) 11])) ! 1 =
     \<lparr>sf_status = 409, sf_sent = Some [(''error'', VStr ''Another run is already in progress.'')]\<rparr>"
  by code_simp

end
